theory Spec2Isabelle
  imports Main
begin

section \<open>Refinement of a projection by a program (rfccc/nodes/choreography/refinement.py)\<close>

text \<open>
  The class \<open>Refinement\<close> checks that a program refines the projection of a choreography.
  Its instance is the record \<open>refinement\<close>; every method takes the instance and returns
  the instance it leaves behind. An exception is the left summand of the result.

  The syntax trees (\<open>ast_inter\<close>, \<open>ast_proj\<close>), the labelling pass \<open>label_as_root\<close>, the
  projection's \<open>mk_state_to_node\<close> and the decision procedure behind \<open>VC.discharge\<close> are
  not part of the sources at hand. Their results are parameters of the model: the node
  types carry the fields that refinement.py reads, the two dictionaries are fields of the
  instance, and the decision procedure is the function \<open>discharge\<close>.
\<close>

subsection \<open>Errors\<close>

text \<open>
  \<open>KeyError\<close>, \<open>IndexError\<close>, \<open>AttributeError\<close> and \<open>NameError\<close> are Python's own.
  \<open>AmbiguousSuccessors\<close> is the raise in \<open>nextStatement\<close>, \<open>Unexpected\<close> the raise that
  ends \<open>compatible\<close>. \<open>OracleFailure\<close> stands for every exception of the decision procedure.

  The constructor \<open>AmbiguousSuccessors\<close> names the raise statement of \<open>nextStatement\<close>, not a
  Python class. The statement builds its message as \<open>"ambiguous successors: " + n + ...\<close>, where
  \<open>n\<close> is the set of the successors; \<open>+\<close> of a \<open>str\<close> and a \<open>set\<close> raises \<open>TypeError\<close>, so this is
  the exception that leaves the statement, and the message is never built. The control flow
  is the same: the exception leaves \<open>nextStatement\<close> and nothing in refinement.py catches it.
\<close>

datatype error =
    KeyError | IndexError | AttributeError | NameError
  | AmbiguousSuccessors | Unexpected | OracleFailure

definition bindE :: "error + 'a \<Rightarrow> ('a \<Rightarrow> error + 'b) \<Rightarrow> error + 'b" where
  "bindE m f = (case m of Inl e \<Rightarrow> Inl e | Inr x \<Rightarrow> f x)"

text \<open>\<open>d[k]\<close> on a dictionary, \<open>xs[0]\<close> on a list.\<close>

definition lookup :: "('k \<times> 'v) list \<Rightarrow> 'k \<Rightarrow> error + 'v" where
  "lookup d k = (case map_of d k of None \<Rightarrow> Inl KeyError | Some v \<Rightarrow> Inr v)"

definition index0 :: "'a list \<Rightarrow> error + 'a" where
  "index0 xs = (case xs of [] \<Rightarrow> Inl IndexError | x # _ \<Rightarrow> Inr x)"

subsection \<open>Conditions, program nodes, projection nodes\<close>

type_synonym label = nat
type_synonym state = nat

text \<open>
  Conditions are sympy expressions. The check builds \<open>Not(c)\<close> and \<open>And(c1, Not(c2))\<close>,
  compares with \<open>S.true\<close>, and hands everything else to the decision procedure.
\<close>

datatype cond = S_true | Sym string | Not_cond cond | And_cond cond cond

text \<open>
  The nodes of \<open>ast_inter\<close>, each with its label (\<open>get_label()\<close>) and the fields that
  refinement.py reads: \<open>Statement.children\<close>; \<open>Receive.motion\<close>, \<open>Receive.actions\<close>;
  \<open>Action.str_msg_type\<close>, \<open>Action.program\<close>; \<open>If.if_list\<close>; \<open>IfComponent.condition\<close>,
  \<open>IfComponent.program\<close>; \<open>While.condition\<close>, \<open>While.program\<close>; \<open>Motion.value\<close>;
  \<open>Send.comp\<close>, \<open>Send.msg_type\<close>.
\<close>

datatype stmt =
    Statement label "stmt list"
  | Receive label stmt "stmt list"
  | Action label string stmt
  | If_stmt label "stmt list"
  | IfComponent label cond stmt
  | While label cond stmt
  | Motion_stmt label string
  | Assign label
  | Send label string string
  | Print label
  | Skip label
  | Exit label

fun get_label :: "stmt \<Rightarrow> label" where
  "get_label (Statement l _) = l"
| "get_label (Receive l _ _) = l"
| "get_label (Action l _ _) = l"
| "get_label (If_stmt l _) = l"
| "get_label (IfComponent l _ _) = l"
| "get_label (While l _ _) = l"
| "get_label (Motion_stmt l _) = l"
| "get_label (Assign l) = l"
| "get_label (Send l _ _) = l"
| "get_label (Print l) = l"
| "get_label (Skip l) = l"
| "get_label (Exit l) = l"

text \<open>\<open>case.condition\<close> and \<open>case.program\<close> on an element of \<open>if_list\<close>.\<close>

fun condition_of :: "stmt \<Rightarrow> error + cond" where
  "condition_of (IfComponent _ c _) = Inr c"
| "condition_of (While _ c _) = Inr c"
| "condition_of _ = Inl AttributeError"

fun program_of :: "stmt \<Rightarrow> error + stmt" where
  "program_of (IfComponent _ _ p) = Inr p"
| "program_of (While _ _ p) = Inr p"
| "program_of (Action _ _ p) = Inr p"
| "program_of _ = Inl AttributeError"

text \<open>
  The nodes of \<open>ast_proj\<close> that \<open>compatible\<close> tells apart: \<open>Motion\<close> with the names of its
  \<open>motions\<close> and its \<open>end_state\<close> list, \<open>SendMessage\<close> with \<open>receiver\<close>, \<open>msg_type\<close>,
  \<open>end_state\<close>, \<open>ReceiveMessage\<close> with \<open>msg_type\<close>, \<open>end_state\<close>, \<open>GuardedChoice\<close> with its
  \<open>guarded_states\<close> (\<open>expression\<close>, \<open>id\<close>), \<open>ExternalChoice\<close> with \<open>end_state\<close>, and \<open>End\<close>.
\<close>

datatype pnode =
    Motion "string list" "state list"
  | SendMessage string string "state list"
  | ReceiveMessage string "state list"
  | GuardedChoice "(cond \<times> state) list"
  | ExternalChoice "state list"
  | End

record projection =
  start_state :: state
  mk_state_to_node :: "(state \<times> pnode) list"

subsection \<open>The instance\<close>

text \<open>
  A Python set is a list read up to order and repetition: \<open>x in s\<close> is \<open>x \<in> set s\<close>,
  \<open>len(s)\<close> is \<open>card (set s)\<close>, \<open>s.add(x)\<close> is \<open>set_add\<close>, \<open>s.discard(x)\<close> is \<open>removeAll\<close>,
  and a loop over \<open>s\<close> visits \<open>remdups s\<close>. The order in which Python visits a set is not
  fixed by the language; the model visits in the order of the list, so every order is the
  order of some list.

  When \<open>debug\<close> is set the source prints a header at the start of every pass of the main
  loop, a line at every call of \<open>compatible\<close> and a line at every removal. The model
  records these three events always, in \<open>trace\<close>.
\<close>

datatype event = CurrentRefinement | Compatible label state | NotCompatible label state

record refinement =
  program :: stmt
  projection :: projection
  state_to_node :: "(state \<times> pnode) list"
  discharge :: "cond \<Rightarrow> bool option"
  cachedImplication :: "cond \<times> cond \<rightharpoonup> bool"
  programLabels :: "(label \<times> stmt) list"
  initLabel :: label
  nextLabel :: "label \<rightharpoonup> label list"
  compat :: "label \<rightharpoonup> state list"
  trace :: "event list"

definition set_add :: "'a \<Rightarrow> 'a list \<Rightarrow> 'a list" where
  "set_add x xs = (if x \<in> set xs then xs else xs @ [x])"

subsection \<open>buildCFA\<close>

text \<open>\<open>for ls in lastLabels: self.nextLabel[ls].add(l)\<close>\<close>

fun connect :: "label list \<Rightarrow> label \<Rightarrow> (label \<rightharpoonup> label list) \<Rightarrow> error + (label \<rightharpoonup> label list)" where
  "connect [] l nl = Inr nl"
| "connect (ls # rest) l nl =
     (case nl ls of
        None \<Rightarrow> Inl KeyError
      | Some succs \<Rightarrow> connect rest l (nl(ls \<mapsto> set_add l succs)))"

text \<open>
  \<open>buildCFA\<close> threads \<open>self.nextLabel\<close> and returns \<open>lastLabel\<close>. \<open>buildCFA_children\<close> is the
  loop over \<open>statment.children\<close>, which feeds each child the labels its predecessor
  returned. \<open>buildCFA_each\<close> is the set comprehension
  \<open>{ l for i in xs for l in self.buildCFA(lastLabel, i) }\<close>: every element starts from the
  same \<open>lastLabel\<close>, and the results are collected in a set \<open>acc\<close>.
\<close>

fun buildCFA :: "label list \<Rightarrow> stmt \<Rightarrow> (label \<rightharpoonup> label list) \<Rightarrow> error + (label list \<times> (label \<rightharpoonup> label list))"
  and buildCFA_children :: "label list \<Rightarrow> stmt list \<Rightarrow> (label \<rightharpoonup> label list) \<Rightarrow> error + (label list \<times> (label \<rightharpoonup> label list))"
  and buildCFA_each :: "label list \<Rightarrow> stmt list \<Rightarrow> label list \<Rightarrow> (label \<rightharpoonup> label list) \<Rightarrow> error + (label list \<times> (label \<rightharpoonup> label list))"
where
  "buildCFA lastLabels (Statement l children) nl =
     (case connect lastLabels l nl of Inl e \<Rightarrow> Inl e
      | Inr nl1 \<Rightarrow> buildCFA_children [l] children nl1)"
| "buildCFA lastLabels (Receive l motion actions) nl =
     (case connect lastLabels l nl of Inl e \<Rightarrow> Inl e
      | Inr nl1 \<Rightarrow>
         (case buildCFA [l] motion nl1 of Inl e \<Rightarrow> Inl e
          | Inr (ls2, nl2) \<Rightarrow>
             (case connect ls2 l nl2 of Inl e \<Rightarrow> Inl e
              | Inr nl3 \<Rightarrow> buildCFA_each [l] actions [] nl3)))"
| "buildCFA lastLabels (Action l mt prog) nl =
     (case connect lastLabels l nl of Inl e \<Rightarrow> Inl e
      | Inr nl1 \<Rightarrow> buildCFA [l] prog nl1)"
| "buildCFA lastLabels (If_stmt l if_list) nl =
     (case connect lastLabels l nl of Inl e \<Rightarrow> Inl e
      | Inr nl1 \<Rightarrow> buildCFA_each [l] if_list [] nl1)"
| "buildCFA lastLabels (IfComponent l c prog) nl =
     (case connect lastLabels l nl of Inl e \<Rightarrow> Inl e
      | Inr nl1 \<Rightarrow> buildCFA [l] prog nl1)"
| "buildCFA lastLabels (While l c prog) nl =
     (case connect lastLabels l nl of Inl e \<Rightarrow> Inl e
      | Inr nl1 \<Rightarrow>
         (case buildCFA [] prog nl1 of Inl e \<Rightarrow> Inl e
          | Inr (ls2, nl2) \<Rightarrow>
             (case connect ls2 l nl2 of Inl e \<Rightarrow> Inl e
              | Inr nl3 \<Rightarrow> Inr ([l], nl3))))"
| "buildCFA lastLabels (Motion_stmt l v) nl =
     (case connect lastLabels l nl of Inl e \<Rightarrow> Inl e | Inr nl1 \<Rightarrow> Inr ([l], nl1))"
| "buildCFA lastLabels (Assign l) nl =
     (case connect lastLabels l nl of Inl e \<Rightarrow> Inl e | Inr nl1 \<Rightarrow> Inr ([l], nl1))"
| "buildCFA lastLabels (Send l c mt) nl =
     (case connect lastLabels l nl of Inl e \<Rightarrow> Inl e | Inr nl1 \<Rightarrow> Inr ([l], nl1))"
| "buildCFA lastLabels (Print l) nl =
     (case connect lastLabels l nl of Inl e \<Rightarrow> Inl e | Inr nl1 \<Rightarrow> Inr ([l], nl1))"
| "buildCFA lastLabels (Skip l) nl =
     (case connect lastLabels l nl of Inl e \<Rightarrow> Inl e | Inr nl1 \<Rightarrow> Inr ([l], nl1))"
| "buildCFA lastLabels (Exit l) nl =
     (case connect lastLabels l nl of Inl e \<Rightarrow> Inl e | Inr nl1 \<Rightarrow> Inr ([l], nl1))"
| "buildCFA_children lastLabel [] nl = Inr (lastLabel, nl)"
| "buildCFA_children lastLabel (c # cs) nl =
     (case buildCFA lastLabel c nl of Inl e \<Rightarrow> Inl e
      | Inr (lastLabel1, nl1) \<Rightarrow> buildCFA_children lastLabel1 cs nl1)"
| "buildCFA_each lastLabel [] acc nl = Inr (acc, nl)"
| "buildCFA_each lastLabel (i # rest) acc nl =
     (case buildCFA lastLabel i nl of Inl e \<Rightarrow> Inl e
      | Inr (ls, nl1) \<Rightarrow> buildCFA_each lastLabel rest (fold set_add ls acc) nl1)"

text \<open>
  The constructor. \<open>labels\<close> is what \<open>program.label_as_root()\<close> returned, \<open>dis\<close> the decision
  procedure: \<open>dis f\<close> is what \<open>VC("implication", [simplify(f)]).discharge()\<close> returns, and
  \<open>None\<close> when it raises. \<open>nextLabel\<close> starts with an empty set for every key of \<open>programLabels\<close>.
\<close>

definition init :: "stmt \<Rightarrow> (label \<times> stmt) list \<Rightarrow> projection \<Rightarrow> (cond \<Rightarrow> bool option) \<Rightarrow> error + refinement" where
  "init prog labels proj dis =
     (case buildCFA [] prog (\<lambda>l. if l \<in> fst ` set labels then Some [] else None) of
        Inl e \<Rightarrow> Inl e
      | Inr (_, nl) \<Rightarrow>
          Inr \<lparr> program = prog, projection = proj,
                state_to_node = mk_state_to_node proj, discharge = dis,
                cachedImplication = Map.empty, programLabels = labels,
                initLabel = get_label prog, nextLabel = nl,
                compat = Map.empty, trace = [] \<rparr>)"

subsection \<open>implies, \_refines, nextStatement, the name predicates\<close>

definition implies :: "refinement \<Rightarrow> cond \<Rightarrow> cond \<Rightarrow> error + (bool \<times> refinement)" where
  "implies r cond1 cond2 =
     (case cachedImplication r (cond1, cond2) of
        Some res \<Rightarrow> Inr (res, r)
      | None \<Rightarrow>
          (case discharge r (And_cond cond1 (Not_cond cond2)) of
             None \<Rightarrow> Inl OracleFailure
           | Some res \<Rightarrow>
               Inr (res, r\<lparr>cachedImplication := (cachedImplication r)((cond1, cond2) \<mapsto> res)\<rparr>)))"

definition refines :: "refinement \<Rightarrow> label option \<Rightarrow> state \<Rightarrow> error + bool" where
  "refines r statment node =
     (case statment of
        None \<Rightarrow> bindE (lookup (state_to_node r) node) (\<lambda>n. Inr (n = End))
      | Some l \<Rightarrow> (case compat r l of None \<Rightarrow> Inl KeyError | Some ss \<Rightarrow> Inr (node \<in> set ss)))"

definition nextStatement :: "refinement \<Rightarrow> label \<Rightarrow> error + label option" where
  "nextStatement r statment =
     (case nextLabel r statment of
        None \<Rightarrow> Inl KeyError
      | Some n \<Rightarrow>
          if card (set n) = 0 then Inr None
          else if card (set n) > 1 then Inl AmbiguousSuccessors
          else Inr (Some (hd n)))"

text \<open>
  \<open>str.lower()\<close>. A character is a code point below 256; the upper-case ones are
  \<open>A\<close> to \<open>Z\<close> and, in Latin-1, 192 to 214 and 216 to 222.
\<close>

definition lower_char :: "char \<Rightarrow> char" where
  "lower_char c =
     (let n = (of_char c :: nat) in
      if (65 \<le> n \<and> n \<le> 90) \<or> (192 \<le> n \<and> n \<le> 214) \<or> (216 \<le> n \<and> n \<le> 222)
      then char_of (n + 32) else c)"

definition lower :: "string \<Rightarrow> string" where
  "lower s = map lower_char s"

definition sameMpName :: "string \<Rightarrow> string \<Rightarrow> bool" where
  "sameMpName n1 n2 = (let l1 = lower n1; l2 = lower n2 in l1 = l2 \<or> l1 = ''m_'' @ l2)"

definition sameMsgName :: "string \<Rightarrow> string \<Rightarrow> bool" where
  "sameMsgName n1 n2 = (let l1 = lower n1; l2 = lower n2 in l1 = l2 \<or> l1 = ''msg_'' @ l2)"

subsection \<open>compatible\<close>

text \<open>
  \<open>any(self.implies(c, gs.expression) and self._refines(tgt, gs.id) for gs in guarded_states)\<close>.
  The target \<open>tgt\<close> is \<open>statment.program.get_label()\<close> or \<open>self.nextStatement(statmentL)\<close>;
  Python evaluates it only after \<open>implies\<close> has returned true, so an exception of
  \<open>nextStatement\<close> is raised only then.
\<close>

fun any_guard :: "refinement \<Rightarrow> cond \<Rightarrow> error + label option \<Rightarrow> (cond \<times> state) list \<Rightarrow> error + (bool \<times> refinement)" where
  "any_guard r c tgt [] = Inr (False, r)"
| "any_guard r c tgt ((g, t) # gss) =
     (case implies r c g of
        Inl e \<Rightarrow> Inl e
      | Inr (b, r1) \<Rightarrow>
          if b then
            (case bindE tgt (\<lambda>lab. refines r1 lab t) of
               Inl e \<Rightarrow> Inl e
             | Inr b2 \<Rightarrow> if b2 then Inr (True, r1) else any_guard r1 c tgt gss)
          else any_guard r1 c tgt gss)"

text \<open>\<open>any(self._refines(x.get_label(), node) for x in xs)\<close>\<close>

fun any_refines :: "refinement \<Rightarrow> stmt list \<Rightarrow> state \<Rightarrow> error + bool" where
  "any_refines r [] node = Inr False"
| "any_refines r (x # xs) node =
     bindE (refines r (Some (get_label x)) node)
       (\<lambda>b. if b then Inr True else any_refines r xs node)"

text \<open>\<open>findOne\<close> and \<open>all(findOne(ns) for ns in node.end_state)\<close> of the ExternalChoice case.\<close>

definition findOne :: "refinement \<Rightarrow> stmt \<Rightarrow> stmt list \<Rightarrow> state \<Rightarrow> error + bool" where
  "findOne r motion actions ns =
     bindE (refines r (Some (get_label motion)) ns)
       (\<lambda>b. if b then Inr True else any_refines r actions ns)"

fun all_findOne :: "refinement \<Rightarrow> stmt \<Rightarrow> stmt list \<Rightarrow> state list \<Rightarrow> error + bool" where
  "all_findOne r motion actions [] = Inr True"
| "all_findOne r motion actions (ns # rest) =
     bindE (findOne r motion actions ns)
       (\<lambda>b. if b then all_findOne r motion actions rest else Inr False)"

text \<open>\<open>[ case.program for case in statment.if_list if case.condition == S.true ]\<close>\<close>

fun trivial_cases :: "stmt list \<Rightarrow> error + stmt list" where
  "trivial_cases [] = Inr []"
| "trivial_cases (c # cs) =
     bindE (condition_of c) (\<lambda>cnd.
       if cnd = S_true
       then bindE (program_of c) (\<lambda>p. bindE (trivial_cases cs) (\<lambda>ps. Inr (p # ps)))
       else trivial_cases cs)"

text \<open>
  The loop of the If case against a GuardedChoice node. Its body reads
  \<open>mode.guarded_states\<close>, and no assignment, parameter or import of refinement.py binds the
  name \<open>mode\<close>: the first pass through the body raises NameError. With an empty \<open>if_list\<close>
  the body is never entered.
\<close>

fun if_guarded :: "refinement \<Rightarrow> stmt list \<Rightarrow> error + bool" where
  "if_guarded r [] = Inr True"
| "if_guarded r (ifComp # rest) = Inl NameError"

definition ret :: "refinement \<Rightarrow> error + bool \<Rightarrow> error + (bool \<times> refinement)" where
  "ret r m = bindE m (\<lambda>b. Inr (b, r))"

text \<open>
  The While case against a GuardedChoice node: the two \<open>any(...)\<close> over
  \<open>node.guarded_states\<close>, the first towards the label of the body, the second, with the
  negated condition, towards \<open>self.nextStatement(statmentL)\<close>.
\<close>

definition while_guarded :: "refinement \<Rightarrow> label \<Rightarrow> cond \<Rightarrow> stmt \<Rightarrow> (cond \<times> state) list \<Rightarrow> error + (bool \<times> refinement)" where
  "while_guarded r statmentL c prog guarded_states =
     bindE (any_guard r c (Inr (Some (get_label prog))) guarded_states) (\<lambda>(b1, r1).
       if b1 then
         bindE (any_guard r1 (Not_cond c) (nextStatement r1 statmentL) guarded_states)
           (\<lambda>(b2, r2). if b2 then Inr (True, r2) else Inr (False, r2))
       else Inr (False, r1))"

definition compatible :: "refinement \<Rightarrow> label \<Rightarrow> state \<Rightarrow> error + (bool \<times> refinement)" where
  "compatible r0 statmentL nodeL =
    (let r = r0\<lparr>trace := trace r0 @ [Compatible statmentL nodeL]\<rparr> in
     bindE (lookup (programLabels r) statmentL) (\<lambda>statment.
     bindE (lookup (state_to_node r) nodeL) (\<lambda>node.
       case statment of
         Motion_stmt _ v \<Rightarrow>
           (case node of
              Motion motions end_state \<Rightarrow>
                bindE (index0 motions) (\<lambda>mp_name.
                  if sameMpName v mp_name
                  then bindE (nextStatement r statmentL) (\<lambda>nxt.
                       bindE (index0 end_state) (\<lambda>e. ret r (refines r nxt e)))
                  else Inr (False, r))
            | _ \<Rightarrow> Inr (False, r))
       | Assign _ \<Rightarrow>
           bindE (nextStatement r statmentL) (\<lambda>nxt. ret r (refines r nxt nodeL))
       | While _ c prog \<Rightarrow>
           if c = S_true then ret r (refines r (Some (get_label prog)) nodeL)
           else
             (case node of
                GuardedChoice guarded_states \<Rightarrow> while_guarded r statmentL c prog guarded_states
              | _ \<Rightarrow> Inr (False, r))
       | If_stmt _ if_list \<Rightarrow>
           (case node of
              GuardedChoice guarded_states \<Rightarrow> ret r (if_guarded r if_list)
            | _ \<Rightarrow> bindE (trivial_cases if_list) (\<lambda>trivial. ret r (any_refines r trivial nodeL)))
       | Send _ comp_id msg_type \<Rightarrow>
           (case node of
              SendMessage receiver node_msg_type end_state \<Rightarrow>
                if comp_id = receiver \<and> sameMsgName msg_type node_msg_type
                then bindE (nextStatement r statmentL) (\<lambda>nxt.
                     bindE (index0 end_state) (\<lambda>e. ret r (refines r nxt e)))
                else Inr (False, r)
            | _ \<Rightarrow> Inr (False, r))
       | Receive _ motion actions \<Rightarrow>
           (case node of
              ReceiveMessage _ _ \<Rightarrow> ret r (any_refines r actions nodeL)
            | Motion _ _ \<Rightarrow> ret r (refines r (Some (get_label motion)) nodeL)
            | ExternalChoice end_state \<Rightarrow> ret r (all_findOne r motion actions end_state)
            | _ \<Rightarrow> Inr (False, r))
       | Action _ str_msg_type _ \<Rightarrow>
           (case node of
              ReceiveMessage node_msg_type end_state \<Rightarrow>
                if str_msg_type = node_msg_type
                then bindE (nextStatement r statmentL) (\<lambda>nxt.
                     bindE (index0 end_state) (\<lambda>e. ret r (refines r nxt e)))
                else Inr (False, r)
            | _ \<Rightarrow> Inr (False, r))
       | Print _ \<Rightarrow> bindE (nextStatement r statmentL) (\<lambda>nxt. ret r (refines r nxt nodeL))
       | Skip _ \<Rightarrow> bindE (nextStatement r statmentL) (\<lambda>nxt. ret r (refines r nxt nodeL))
       | Statement _ _ \<Rightarrow> bindE (nextStatement r statmentL) (\<lambda>nxt. ret r (refines r nxt nodeL))
       | Exit _ \<Rightarrow> Inr (node = End, r)
       | IfComponent _ _ _ \<Rightarrow> Inl Unexpected)))"

subsection \<open>check\<close>

text \<open>
  The inner loop \<open>for s in copy(self.compat[l])\<close>, the loop \<open>for l in allLabels\<close> and the
  loop \<open>while changed\<close>. The copy is taken when the inner loop starts; \<open>discard\<close> works on
  the set that \<open>self.compat[l]\<close> holds at that moment.
\<close>

fun check_states :: "refinement \<Rightarrow> label \<Rightarrow> state list \<Rightarrow> bool \<Rightarrow> error + (bool \<times> refinement)" where
  "check_states r l [] changed = Inr (changed, r)"
| "check_states r l (s # ss) changed =
     (case compatible r l s of
        Inl e \<Rightarrow> Inl e
      | Inr (b, r1) \<Rightarrow>
          if \<not> b then
            (case compat r1 l of
               None \<Rightarrow> Inl KeyError
             | Some cur \<Rightarrow>
                 check_states
                   (r1\<lparr>trace := trace r1 @ [NotCompatible l s],
                       compat := (compat r1)(l \<mapsto> removeAll s cur)\<rparr>) l ss True)
          else check_states r1 l ss changed)"

fun check_labels :: "refinement \<Rightarrow> label list \<Rightarrow> bool \<Rightarrow> error + (bool \<times> refinement)" where
  "check_labels r [] changed = Inr (changed, r)"
| "check_labels r (l # ls) changed =
     (case compat r l of
        None \<Rightarrow> Inl KeyError
      | Some cur \<Rightarrow>
          (case check_states r l (remdups cur) changed of
             Inl e \<Rightarrow> Inl e
           | Inr (changed1, r1) \<Rightarrow> check_labels r1 ls changed1))"

function check_loop :: "label list \<Rightarrow> refinement \<Rightarrow> error + refinement" where
  "check_loop allLabels r =
     (case check_labels (r\<lparr>trace := trace r @ [CurrentRefinement]\<rparr>) allLabels False of
        Inl e \<Rightarrow> Inl e
      | Inr (changed, r1) \<Rightarrow> if changed then check_loop allLabels r1 else Inr r1)"
  by pat_completeness auto

definition allLabels_of :: "refinement \<Rightarrow> label list" where
  "allLabels_of r = remdups (map fst (programLabels r))"

definition allState_of :: "refinement \<Rightarrow> state list" where
  "allState_of r = remdups (map fst (state_to_node r))"

definition universal :: "refinement \<Rightarrow> label \<rightharpoonup> state list" where
  "universal r = (\<lambda>l. if l \<in> set (allLabels_of r) then Some (allState_of r) else None)"

definition check :: "refinement \<Rightarrow> error + (bool \<times> refinement)" where
  "check r =
     (case check_loop (allLabels_of r) (r\<lparr>compat := universal r\<rparr>) of
        Inl e \<Rightarrow> Inl e
      | Inr r1 \<Rightarrow>
          (case compat r1 (get_label (program r1)) of
             None \<Rightarrow> Inl KeyError
           | Some ss \<Rightarrow> Inr (start_state (projection r1) \<in> set ss, r1)))"

section \<open>Notions for the proofs\<close>

text \<open>The set that a dictionary of sets holds under a key; empty for a missing key.\<close>

definition cset :: "('a \<rightharpoonup> 'b list) \<Rightarrow> 'a \<Rightarrow> 'b set" where
  "cset C l = (case C l of None \<Rightarrow> {} | Some ss \<Rightarrow> set ss)"

text \<open>
  What \<open>implies\<close> answers on a pair of conditions: the cached answer if there is one, the
  answer of the decision procedure otherwise.
\<close>

definition eff :: "refinement \<Rightarrow> cond \<Rightarrow> cond \<Rightarrow> error + bool" where
  "eff r c1 c2 =
     (case cachedImplication r (c1, c2) of
        Some b \<Rightarrow> Inr b
      | None \<Rightarrow> (case discharge r (And_cond c1 (Not_cond c2)) of
                   None \<Rightarrow> Inl OracleFailure | Some b \<Rightarrow> Inr b))"

text \<open>
  The values that \<open>any_guard\<close>, \<open>while_guarded\<close> and \<open>compatible\<close> return, without the
  instance they leave behind: every call of \<open>implies\<close> is replaced by \<open>eff\<close>. The lemmas
  \<open>any_guard_agrees\<close>, \<open>while_guarded_agrees\<close> and \<open>compatible_agrees\<close> show that these are
  the values of the three functions above.
\<close>

fun any_guard_val :: "refinement \<Rightarrow> cond \<Rightarrow> error + label option \<Rightarrow> (cond \<times> state) list \<Rightarrow> error + bool" where
  "any_guard_val r c tgt [] = Inr False"
| "any_guard_val r c tgt ((g, t) # gss) =
     bindE (eff r c g) (\<lambda>b.
       if b then bindE (bindE tgt (\<lambda>lab. refines r lab t))
                   (\<lambda>b2. if b2 then Inr True else any_guard_val r c tgt gss)
       else any_guard_val r c tgt gss)"

definition while_guarded_val :: "refinement \<Rightarrow> label \<Rightarrow> cond \<Rightarrow> stmt \<Rightarrow> (cond \<times> state) list \<Rightarrow> error + bool" where
  "while_guarded_val r l c prog gss =
     bindE (any_guard_val r c (Inr (Some (get_label prog))) gss) (\<lambda>b1.
       if b1 then any_guard_val r (Not_cond c) (nextStatement r l) gss else Inr False)"

text \<open>
  \<open>cache_ext r r'\<close>: \<open>r'\<close> is \<open>r\<close> with a larger cache that answers as \<open>r\<close> does.
  \<open>agrees r m v\<close>: the result \<open>m\<close> of a method has the value \<open>v\<close> and leaves such an instance.
\<close>

definition cache_ext :: "refinement \<Rightarrow> refinement \<Rightarrow> bool" where
  "cache_ext r r' =
     (r' = r\<lparr>cachedImplication := cachedImplication r'\<rparr> \<and>
      cachedImplication r \<subseteq>\<^sub>m cachedImplication r' \<and> eff r' = eff r)"

definition compatible_val :: "refinement \<Rightarrow> label \<Rightarrow> state \<Rightarrow> error + bool" where
  "compatible_val r statmentL nodeL =
     bindE (lookup (programLabels r) statmentL) (\<lambda>statment.
     bindE (lookup (state_to_node r) nodeL) (\<lambda>node.
       case statment of
         Motion_stmt _ v \<Rightarrow>
           (case node of
              Motion motions end_state \<Rightarrow>
                bindE (index0 motions) (\<lambda>mp_name.
                  if sameMpName v mp_name
                  then bindE (nextStatement r statmentL) (\<lambda>nxt.
                       bindE (index0 end_state) (\<lambda>e. refines r nxt e))
                  else Inr False)
            | _ \<Rightarrow> Inr False)
       | Assign _ \<Rightarrow> bindE (nextStatement r statmentL) (\<lambda>nxt. refines r nxt nodeL)
       | While _ c prog \<Rightarrow>
           if c = S_true then refines r (Some (get_label prog)) nodeL
           else
             (case node of
                GuardedChoice guarded_states \<Rightarrow> while_guarded_val r statmentL c prog guarded_states
              | _ \<Rightarrow> Inr False)
       | If_stmt _ if_list \<Rightarrow>
           (case node of
              GuardedChoice guarded_states \<Rightarrow> if_guarded r if_list
            | _ \<Rightarrow> bindE (trivial_cases if_list) (\<lambda>trivial. any_refines r trivial nodeL))
       | Send _ comp_id msg_type \<Rightarrow>
           (case node of
              SendMessage receiver node_msg_type end_state \<Rightarrow>
                if comp_id = receiver \<and> sameMsgName msg_type node_msg_type
                then bindE (nextStatement r statmentL) (\<lambda>nxt.
                     bindE (index0 end_state) (\<lambda>e. refines r nxt e))
                else Inr False
            | _ \<Rightarrow> Inr False)
       | Receive _ motion actions \<Rightarrow>
           (case node of
              ReceiveMessage _ _ \<Rightarrow> any_refines r actions nodeL
            | Motion _ _ \<Rightarrow> refines r (Some (get_label motion)) nodeL
            | ExternalChoice end_state \<Rightarrow> all_findOne r motion actions end_state
            | _ \<Rightarrow> Inr False)
       | Action _ str_msg_type _ \<Rightarrow>
           (case node of
              ReceiveMessage node_msg_type end_state \<Rightarrow>
                if str_msg_type = node_msg_type
                then bindE (nextStatement r statmentL) (\<lambda>nxt.
                     bindE (index0 end_state) (\<lambda>e. refines r nxt e))
                else Inr False
            | _ \<Rightarrow> Inr False)
       | Print _ \<Rightarrow> bindE (nextStatement r statmentL) (\<lambda>nxt. refines r nxt nodeL)
       | Skip _ \<Rightarrow> bindE (nextStatement r statmentL) (\<lambda>nxt. refines r nxt nodeL)
       | Statement _ _ \<Rightarrow> bindE (nextStatement r statmentL) (\<lambda>nxt. refines r nxt nodeL)
       | Exit _ \<Rightarrow> Inr (node = End)
       | IfComponent _ _ _ \<Rightarrow> Inl Unexpected))"

definition agrees :: "refinement \<Rightarrow> error + (bool \<times> refinement) \<Rightarrow> error + bool \<Rightarrow> bool" where
  "agrees r m v = (case m of Inl e \<Rightarrow> v = Inl e | Inr (b, r') \<Rightarrow> v = Inr b \<and> cache_ext r r')"

text \<open>
  The fields that no method assigns after the constructor, and \<open>evolves r r'\<close>: \<open>r'\<close> has the
  fields of \<open>r\<close>, answers implications as \<open>r\<close> does, has a larger cache, a longer trace and,
  under the same keys, smaller sets in \<open>compat\<close>.
\<close>

definition static :: "refinement \<Rightarrow> stmt \<times> projection \<times> (state \<times> pnode) list \<times> (cond \<Rightarrow> bool option) \<times> (label \<times> stmt) list \<times> label \<times> (label \<rightharpoonup> label list)" where
  "static r = (program r, projection r, state_to_node r, discharge r, programLabels r, initLabel r, nextLabel r)"

definition evolves :: "refinement \<Rightarrow> refinement \<Rightarrow> bool" where
  "evolves r r' =
     (static r' = static r \<and> eff r' = eff r \<and>
      cachedImplication r \<subseteq>\<^sub>m cachedImplication r' \<and>
      dom (compat r') = dom (compat r) \<and>
      (\<forall>l. cset (compat r') l \<subseteq> cset (compat r) l) \<and>
      (\<exists>evs. trace r' = trace r @ evs))"

text \<open>
  Counting in the trace: removals, calls of \<open>compatible\<close>, passes of the main loop. \<open>msize\<close>
  is the number of pairs that \<open>compat\<close> holds under the labels in \<open>A\<close>.
\<close>

fun is_removal :: "event \<Rightarrow> bool" where
  "is_removal (NotCompatible _ _) = True"
| "is_removal _ = False"

fun is_evaluation :: "event \<Rightarrow> bool" where
  "is_evaluation (Compatible _ _) = True"
| "is_evaluation _ = False"

definition n_removed :: "refinement \<Rightarrow> nat" where
  "n_removed r = length (filter is_removal (trace r))"

definition n_evaluated :: "refinement \<Rightarrow> nat" where
  "n_evaluated r = length (filter is_evaluation (trace r))"

definition n_passes :: "refinement \<Rightarrow> nat" where
  "n_passes r = length (filter (\<lambda>e. e = CurrentRefinement) (trace r))"

definition msize :: "label set \<Rightarrow> refinement \<Rightarrow> nat" where
  "msize A r = (\<Sum>l\<in>A. card (cset (compat r) l))"

text \<open>\<open>same_view r r2\<close>: the two instances agree on everything that \<open>compatible\<close> reads.\<close>

definition same_view :: "refinement \<Rightarrow> refinement \<Rightarrow> bool" where
  "same_view r r2 =
     (programLabels r2 = programLabels r \<and> state_to_node r2 = state_to_node r \<and>
      nextLabel r2 = nextLabel r \<and> eff r2 = eff r \<and>
      dom (compat r2) = dom (compat r) \<and> (\<forall>l. cset (compat r2) l = cset (compat r) l))"

text \<open>What the inner loop over the states of one label \<open>l\<close> has done when it returns.\<close>

definition inner_post :: "refinement \<Rightarrow> label \<Rightarrow> state list \<Rightarrow> bool \<Rightarrow> bool \<Rightarrow> refinement \<Rightarrow> bool" where
  "inner_post r l ss ch ch' r' =
     (evolves r r' \<and>
      (\<forall>l'. l' \<noteq> l \<longrightarrow> compat r' l' = compat r l') \<and>
      cset (compat r) l - set ss \<subseteq> cset (compat r') l \<and>
      ch' = (ch \<or> cset (compat r') l \<noteq> cset (compat r) l) \<and>
      (\<not> ch' \<longrightarrow> compat r' = compat r) \<and>
      n_removed r' + card (cset (compat r') l) = n_removed r + card (cset (compat r) l) \<and>
      n_evaluated r' = n_evaluated r + length ss \<and>
      n_passes r' = n_passes r)"

section \<open>Lemmas\<close>

lemma bindE_simps [simp]: "bindE (Inl e) f = Inl e" "bindE (Inr x) f = f x"
  by (simp_all add: bindE_def)

lemma bindE_eq_Inr: "bindE m f = Inr y \<longleftrightarrow> (\<exists>x. m = Inr x \<and> f x = Inr y)"
  by (cases m) auto

lemma bindE_eq_Inl: "bindE m f = Inl e \<longleftrightarrow> m = Inl e \<or> (\<exists>x. m = Inr x \<and> f x = Inl e)"
  by (cases m) auto

lemma ret_simps [simp]: "ret r (Inl e) = Inl e" "ret r (Inr b) = Inr (b, r)"
  by (simp_all add: ret_def)

lemma cache_ext_refl [simp]: "cache_ext r r"
  unfolding cache_ext_def by simp

lemma cache_ext_trans: "cache_ext r r1 \<Longrightarrow> cache_ext r1 r2 \<Longrightarrow> cache_ext r r2"
proof -
  assume a: "cache_ext r r1" and b: "cache_ext r1 r2"
  have "r2 = r1\<lparr>cachedImplication := cachedImplication r2\<rparr>" using b by (simp add: cache_ext_def)
  moreover have "r1 = r\<lparr>cachedImplication := cachedImplication r1\<rparr>" using a by (simp add: cache_ext_def)
  ultimately have "r2 = r\<lparr>cachedImplication := cachedImplication r2\<rparr>"
    by (metis refinement.update_convs(5) refinement.surjective)
  moreover have "cachedImplication r \<subseteq>\<^sub>m cachedImplication r2"
    using a b by (auto simp: cache_ext_def intro: map_le_trans)
  moreover have "eff r2 = eff r" using a b by (simp add: cache_ext_def)
  ultimately show ?thesis by (simp add: cache_ext_def)
qed

lemma implies_eff:
  "implies r c g =
     (case eff r c g of Inl e \<Rightarrow> Inl e
      | Inr b \<Rightarrow> Inr (b, r\<lparr>cachedImplication := (cachedImplication r)((c, g) \<mapsto> b)\<rparr>))"
  by (auto simp: implies_def eff_def fun_upd_idem split: option.splits)

lemma eff_upd: "eff r c g = Inr b \<Longrightarrow> eff (r\<lparr>cachedImplication := (cachedImplication r)((c, g) \<mapsto> b)\<rparr>) = eff r"
  by (auto simp: eff_def fun_eq_iff split: option.splits)

lemma cache_ext_upd: "eff r c g = Inr b \<Longrightarrow> cache_ext r (r\<lparr>cachedImplication := (cachedImplication r)((c, g) \<mapsto> b)\<rparr>)"
  unfolding cache_ext_def
  by (auto simp: eff_upd map_le_def eff_def split: option.splits)

lemma refines_cache_ext: "cache_ext r r' \<Longrightarrow> refines r' lab t = refines r lab t"
  by (cases r, cases r') (auto simp: cache_ext_def refines_def split: option.splits)

lemma nextStatement_cache_ext: "cache_ext r r' \<Longrightarrow> nextStatement r' l = nextStatement r l"
  by (cases r, cases r') (auto simp: cache_ext_def nextStatement_def split: option.splits)

lemma any_guard_val_cong:
  "eff r' = eff r \<Longrightarrow> (\<And>lab t. refines r' lab t = refines r lab t) \<Longrightarrow>
   any_guard_val r' c tgt gss = any_guard_val r c tgt gss"
  by (induction gss) (auto cong: if_cong)

lemma any_guard_val_cache_ext: "cache_ext r r' \<Longrightarrow> any_guard_val r' c tgt gss = any_guard_val r c tgt gss"
  by (rule any_guard_val_cong) (auto simp: refines_cache_ext cache_ext_def)

lemma any_guard_agrees:
  "(case any_guard r c tgt gss of
      Inl e \<Rightarrow> any_guard_val r c tgt gss = Inl e
    | Inr (b, r') \<Rightarrow> any_guard_val r c tgt gss = Inr b \<and> cache_ext r r')"
proof (induction gss arbitrary: r)
  case Nil
  show ?case by simp
next
  case (Cons gt gss)
  obtain g t where gt: "gt = (g, t)" by (cases gt)
  show ?case
  proof (cases "eff r c g")
    case (Inl e)
    then show ?thesis by (simp add: gt implies_eff)
  next
    case (Inr b)
    define r1 where "r1 = r\<lparr>cachedImplication := (cachedImplication r)((c, g) \<mapsto> b)\<rparr>"
    have ext: "cache_ext r r1" unfolding r1_def by (rule cache_ext_upd[OF Inr])
    have imp: "implies r c g = Inr (b, r1)" by (simp add: implies_eff Inr r1_def)
    have val: "any_guard_val r1 c tgt gss = any_guard_val r c tgt gss"
      by (rule any_guard_val_cache_ext[OF ext])
    have IH: "(case any_guard r1 c tgt gss of
      Inl e \<Rightarrow> any_guard_val r c tgt gss = Inl e
    | Inr (b, r') \<Rightarrow> any_guard_val r c tgt gss = Inr b \<and> cache_ext r r')"
      using Cons.IH[of r1] val ext by (auto split: sum.splits intro: cache_ext_trans)
    show ?thesis
      using IH ext
      by (cases tgt) (auto simp: gt imp Inr refines_cache_ext[OF ext] split: sum.splits)
  qed
qed

lemma agrees_Inl [simp]: "agrees r (Inl e) v \<longleftrightarrow> v = Inl e"
  by (simp add: agrees_def)

lemma agrees_Inr [simp]: "agrees r (Inr (b, r')) v \<longleftrightarrow> v = Inr b \<and> cache_ext r r'"
  by (simp add: agrees_def)

lemma agrees_ret [simp]: "agrees r (ret r m) m"
  by (cases m) auto

lemma agrees_bindE:
  "(\<And>x. m = Inr x \<Longrightarrow> agrees r (f x) (g x)) \<Longrightarrow> agrees r (bindE m f) (bindE m g)"
  by (cases m) auto

lemma any_guard_agrees': "agrees r (any_guard r c tgt gss) (any_guard_val r c tgt gss)"
  using any_guard_agrees[of r c tgt gss] by (auto simp: agrees_def split: sum.splits)

lemma while_guarded_agrees:
  "agrees r (while_guarded r l c prog gss) (while_guarded_val r l c prog gss)"
proof (cases "any_guard r c (Inr (Some (get_label prog))) gss")
  case (Inl e)
  then show ?thesis
    using any_guard_agrees'[of r c "Inr (Some (get_label prog))" gss]
    by (simp add: while_guarded_def while_guarded_val_def)
next
  case (Inr p)
  obtain b1 r1 where p: "p = (b1, r1)" by (cases p)
  have a1: "any_guard_val r c (Inr (Some (get_label prog))) gss = Inr b1" and e1: "cache_ext r r1"
    using any_guard_agrees'[of r c "Inr (Some (get_label prog))" gss] Inr p by auto
  show ?thesis
  proof (cases b1)
    case False
    then show ?thesis using Inr p a1 e1 by (simp add: while_guarded_def while_guarded_val_def)
  next
    case True
    have a2: "agrees r1 (any_guard r1 (Not_cond c) (nextStatement r1 l) gss)
                (any_guard_val r (Not_cond c) (nextStatement r l) gss)"
      using any_guard_agrees'[of r1 "Not_cond c" "nextStatement r1 l" gss]
      by (simp add: any_guard_val_cache_ext[OF e1] nextStatement_cache_ext[OF e1])
    show ?thesis
      using Inr p a1 e1 True a2
      by (auto simp: while_guarded_def while_guarded_val_def agrees_def
               split: sum.splits if_splits intro: cache_ext_trans)
  qed
qed

lemma compatible_agrees:
  "agrees (r\<lparr>trace := trace r @ [Compatible l s]\<rparr>) (compatible r l s)
     (compatible_val (r\<lparr>trace := trace r @ [Compatible l s]\<rparr>) l s)"
  unfolding compatible_def compatible_val_def Let_def
  by (intro agrees_bindE)
     (auto simp: while_guarded_agrees split: stmt.splits pnode.splits intro!: agrees_bindE)

lemma finite_cset [simp]: "finite (cset C l)"
  by (simp add: cset_def split: option.splits)

lemma evolves_refl [simp]: "evolves r r"
  by (simp add: evolves_def)

lemma evolves_trans: "evolves r r1 \<Longrightarrow> evolves r1 r2 \<Longrightarrow> evolves r r2"
  unfolding evolves_def
  apply (intro conjI)
       apply simp
      apply simp
     apply (blast intro: map_le_trans)
    apply simp
   apply (meson subset_trans)
  apply (metis append.assoc)
  done

lemma eff_trace [simp]: "eff (r\<lparr>trace := t\<rparr>) = eff r"
  by (simp add: eff_def fun_eq_iff split: option.splits)

lemma eff_compat [simp]: "eff (r\<lparr>compat := C\<rparr>) = eff r"
  by (simp add: eff_def fun_eq_iff split: option.splits)

lemma same_view_refl [simp]: "same_view r r"
  by (simp add: same_view_def)

lemma same_view_sym: "same_view r r2 \<Longrightarrow> same_view r2 r"
  by (simp add: same_view_def)

lemma same_view_trans: "same_view r r1 \<Longrightarrow> same_view r1 r2 \<Longrightarrow> same_view r r2"
  by (simp add: same_view_def)

lemma same_view_trace [simp]: "same_view r (r\<lparr>trace := t\<rparr>)"
  by (simp add: same_view_def)

lemma refines_Some: "refines r (Some l) t = (if l \<in> dom (compat r) then Inr (t \<in> cset (compat r) l) else Inl KeyError)"
  by (auto simp: refines_def cset_def split: option.splits)

lemma refines_None: "refines r None t = bindE (lookup (state_to_node r) t) (\<lambda>n. Inr (n = End))"
  by (simp add: refines_def)

lemma refines_view: "same_view r r2 \<Longrightarrow> refines r2 = refines r"
proof -
  assume v: "same_view r r2"
  have "refines r2 lab t = refines r lab t" for lab t
    using v by (cases lab) (simp_all add: refines_Some refines_None same_view_def)
  then show ?thesis by (simp add: fun_eq_iff)
qed

lemma nextStatement_view: "same_view r r2 \<Longrightarrow> nextStatement r2 = nextStatement r"
  by (simp add: same_view_def nextStatement_def fun_eq_iff split: option.splits)

lemma any_refines_view: "same_view r r2 \<Longrightarrow> any_refines r2 = any_refines r"
proof -
  assume v: "same_view r r2"
  have "any_refines r2 xs n = any_refines r xs n" for xs n
    by (induction xs) (simp_all add: refines_view[OF v] cong: if_cong)
  then show ?thesis by (simp add: fun_eq_iff)
qed

lemma findOne_view: "same_view r r2 \<Longrightarrow> findOne r2 = findOne r"
  by (simp add: fun_eq_iff findOne_def refines_view[of r r2] any_refines_view[of r r2] cong: if_cong)

lemma all_findOne_view: "same_view r r2 \<Longrightarrow> all_findOne r2 = all_findOne r"
proof -
  assume v: "same_view r r2"
  have "all_findOne r2 m acts ns = all_findOne r m acts ns" for m acts ns
    by (induction ns) (simp_all add: findOne_view[OF v] cong: if_cong)
  then show ?thesis by (simp add: fun_eq_iff)
qed

lemma if_guarded_view: "if_guarded r2 = if_guarded r"
proof -
  have "if_guarded r2 xs = if_guarded r xs" for xs by (cases xs) simp_all
  then show ?thesis by (simp add: fun_eq_iff)
qed

lemma any_guard_val_view: "same_view r r2 \<Longrightarrow> any_guard_val r2 = any_guard_val r"
proof -
  assume v: "same_view r r2"
  have "any_guard_val r2 c tgt gss = any_guard_val r c tgt gss" for c tgt gss
    by (rule any_guard_val_cong) (use v in \<open>simp_all add: refines_view[OF v] same_view_def\<close>)
  then show ?thesis by (simp add: fun_eq_iff)
qed

lemma while_guarded_val_view:
  "same_view r r2 \<Longrightarrow> while_guarded_val r2 = while_guarded_val r"
  by (simp add: fun_eq_iff while_guarded_val_def any_guard_val_view[of r r2] nextStatement_view[of r r2] cong: if_cong)

lemma compatible_val_view: "same_view r r2 \<Longrightarrow> compatible_val r2 l s = compatible_val r l s"
proof -
  assume v: "same_view r r2"
  have f: "programLabels r2 = programLabels r" "state_to_node r2 = state_to_node r"
    using v by (simp_all add: same_view_def)
  show ?thesis
    unfolding compatible_val_def f
    unfolding refines_view[OF v] nextStatement_view[OF v] any_refines_view[OF v]
          all_findOne_view[OF v] while_guarded_val_view[OF v] if_guarded_view[of r2 r]
    by (rule refl)
qed

lemma compatible_result:
  assumes "compatible r l s = Inr (b, r')"
  shows "\<exists>ca. r' = r\<lparr>trace := trace r @ [Compatible l s], cachedImplication := ca\<rparr>"
    and "cachedImplication r \<subseteq>\<^sub>m cachedImplication r'"
    and "eff r' = eff r"
    and "compatible_val r l s = Inr b"
proof -
  let ?r0 = "r\<lparr>trace := trace r @ [Compatible l s]\<rparr>"
  have ag: "compatible_val ?r0 l s = Inr b" "cache_ext ?r0 r'"
    using compatible_agrees[of r l s] assms by auto
  show "\<exists>ca. r' = r\<lparr>trace := trace r @ [Compatible l s], cachedImplication := ca\<rparr>"
    using ag(2) unfolding cache_ext_def by blast
  show "cachedImplication r \<subseteq>\<^sub>m cachedImplication r'"
    using ag(2) by (simp add: cache_ext_def)
  show "eff r' = eff r" using ag(2) by (simp add: cache_ext_def)
  show "compatible_val r l s = Inr b"
    using ag(1) compatible_val_view[of r ?r0] by simp
qed

lemma compatible_error:
  "compatible r l s = Inl e \<Longrightarrow> compatible_val r l s = Inl e"
  using compatible_agrees[of r l s] compatible_val_view[of r "r\<lparr>trace := trace r @ [Compatible l s]\<rparr>"]
  by simp

lemma compatible_evolves:
  assumes "compatible r l s = Inr (b, r')"
  shows "evolves r r'" and "compat r' = compat r" and "same_view r r'"
    and "n_removed r' = n_removed r" and "n_evaluated r' = Suc (n_evaluated r)"
    and "n_passes r' = n_passes r"
proof -
  note res = compatible_result[OF assms]
  obtain ca where r': "r' = r\<lparr>trace := trace r @ [Compatible l s], cachedImplication := ca\<rparr>"
    using res(1) by blast
  have fields: "static r' = static r" "compat r' = compat r" "trace r' = trace r @ [Compatible l s]"
    by (simp_all add: r' static_def)
  show "evolves r r'" using fields res(2,3) by (simp add: evolves_def)
  show "compat r' = compat r" by fact
  show "same_view r r'" using fields res(3) by (simp add: same_view_def static_def)
  show "n_removed r' = n_removed r" "n_evaluated r' = Suc (n_evaluated r)" "n_passes r' = n_passes r"
    using fields(3) by (simp_all add: n_removed_def n_evaluated_def n_passes_def)
qed

lemma cset_upd_same [simp]: "cset (C(l \<mapsto> xs)) l = set xs"
  by (simp add: cset_def)

lemma cset_upd_other [simp]: "l' \<noteq> l \<Longrightarrow> cset (C(l \<mapsto> xs)) l' = cset C l'"
  by (simp add: cset_def)

lemma cset_Some: "C l = Some xs \<Longrightarrow> cset C l = set xs"
  by (simp add: cset_def)

lemma discard_evolves:
  assumes "compat r l = Some cur"
  shows "evolves r (r\<lparr>trace := trace r @ [NotCompatible l s], compat := (compat r)(l \<mapsto> removeAll s cur)\<rparr>)"
proof -
  have "cset ((compat r)(l \<mapsto> removeAll s cur)) l' \<subseteq> cset (compat r) l'" for l'
    using assms by (cases "l' = l") (auto simp: cset_Some)
  moreover have "dom ((compat r)(l \<mapsto> removeAll s cur)) = dom (compat r)"
    using assms by auto
  ultimately show ?thesis
    by (simp add: evolves_def static_def)
qed

lemma inner_post_keep:
  assumes c: "compatible r l s = Inr (True, r1)"
    and sin: "s \<in> cset (compat r) l" and snot: "s \<notin> set ss"
    and IH: "inner_post r1 l ss ch ch' r'"
  shows "inner_post r l (s # ss) ch ch' r'"
proof -
  note ev = compatible_evolves[OF c]
  have i: "evolves r1 r'" "\<And>l'. l' \<noteq> l \<Longrightarrow> compat r' l' = compat r l'"
    "cset (compat r) l - set ss \<subseteq> cset (compat r') l"
    "ch' = (ch \<or> cset (compat r') l \<noteq> cset (compat r) l)"
    "\<not> ch' \<Longrightarrow> compat r' = compat r"
    "n_removed r' + card (cset (compat r') l) = n_removed r + card (cset (compat r) l)"
    "n_evaluated r' = n_evaluated r1 + length ss"
    "n_passes r' = n_passes r"
    using IH unfolding inner_post_def ev(2) ev(4) ev(6) by simp_all
  have e: "evolves r r'" by (rule evolves_trans[OF ev(1) i(1)])
  have sub: "cset (compat r) l - set (s # ss) \<subseteq> cset (compat r') l"
    using i(3) by auto
  have n: "n_evaluated r' = n_evaluated r + length (s # ss)"
    using i(7) ev(5) by simp
  show ?thesis
    unfolding inner_post_def
    using e i(2) sub i(4) i(5) i(6) n i(8) by simp
qed

lemma inner_post_drop:
  assumes c: "compatible r l s = Inr (False, r1)"
    and cur: "compat r1 l = Some cur"
    and r2: "r2 = r1\<lparr>trace := trace r1 @ [NotCompatible l s],
                       compat := (compat r1)(l \<mapsto> removeAll s cur)\<rparr>"
    and sin: "s \<in> cset (compat r) l"
    and IH: "inner_post r2 l ss True ch' r'"
  shows "inner_post r l (s # ss) ch ch' r'"
proof -
  note ev = compatible_evolves[OF c]
  have ev2: "evolves r1 r2" unfolding r2 by (rule discard_evolves[OF cur])
  have c2: "cset (compat r2) l = cset (compat r) l - {s}"
    using cur ev(2) by (auto simp: r2 cset_Some)
  have o2: "\<And>l'. l' \<noteq> l \<Longrightarrow> compat r2 l' = compat r l'"
    by (simp add: r2 ev(2))
  have n2: "n_removed r2 = Suc (n_removed r)" "n_evaluated r2 = Suc (n_evaluated r)"
      "n_passes r2 = n_passes r"
    using ev(4,5,6) by (simp_all add: r2 n_removed_def n_evaluated_def n_passes_def)
  have i: "evolves r2 r'" "\<And>l'. l' \<noteq> l \<Longrightarrow> compat r' l' = compat r2 l'"
    "cset (compat r2) l - set ss \<subseteq> cset (compat r') l"
    "ch'"
    "n_removed r' + card (cset (compat r') l) = n_removed r2 + card (cset (compat r2) l)"
    "n_evaluated r' = n_evaluated r2 + length ss"
    "n_passes r' = n_passes r2"
    using IH unfolding inner_post_def by simp_all
  have e: "evolves r r'"
    by (rule evolves_trans[OF ev(1) evolves_trans[OF ev2 i(1)]])
  have sub': "cset (compat r') l \<subseteq> cset (compat r2) l"
    using i(1) by (simp add: evolves_def)
  have gone: "s \<notin> cset (compat r') l" using sub' c2 by auto
  have ne: "cset (compat r') l \<noteq> cset (compat r) l" using gone sin by auto
  have card2: "Suc (card (cset (compat r2) l)) = card (cset (compat r) l)"
    unfolding c2 using sin by (intro card_Suc_Diff1) simp_all
  have sub: "cset (compat r) l - set (s # ss) \<subseteq> cset (compat r') l"
    using i(3) unfolding c2 by auto
  have o: "\<forall>l'. l' \<noteq> l \<longrightarrow> compat r' l' = compat r l'"
    using i(2) o2 by simp
  have nr: "n_removed r' + card (cset (compat r') l) = n_removed r + card (cset (compat r) l)"
    using i(5) n2(1) card2 by simp
  have nev: "n_evaluated r' = n_evaluated r + length (s # ss)"
    using i(6) n2(2) by simp
  have np: "n_passes r' = n_passes r" using i(7) n2(3) by simp
  show ?thesis
    unfolding inner_post_def
    using e o sub i(4) ne nr nev np by simp
qed

lemma check_states_spec:
  assumes "check_states r l ss ch = Inr (ch', r')"
    and "set ss \<subseteq> cset (compat r) l" and "distinct ss"
  shows "inner_post r l ss ch ch' r'"
  using assms
proof (induction ss arbitrary: r ch)
  case Nil
  then show ?case by (simp add: inner_post_def)
next
  case (Cons s ss)
  from Cons.prems(1) obtain b r1 where c: "compatible r l s = Inr (b, r1)"
    by (cases "compatible r l s") auto
  note ev = compatible_evolves[OF c]
  have sin: "s \<in> cset (compat r) l" and ssub: "set ss \<subseteq> cset (compat r) l"
    and snot: "s \<notin> set ss" and dss: "distinct ss"
    using Cons.prems(2,3) by auto
  show ?case
  proof (cases b)
    case True
    then have rec: "check_states r1 l ss ch = Inr (ch', r')"
      using Cons.prems(1) c by simp
    have IH: "inner_post r1 l ss ch ch' r'"
      by (rule Cons.IH[OF rec]) (use ssub dss ev(2) in simp_all)
    have cT: "compatible r l s = Inr (True, r1)" using c True by simp
    show ?thesis
      by (rule inner_post_keep[OF cT sin snot IH])
  next
    case False
    obtain cur where cur: "compat r1 l = Some cur"
      using sin ev(2) by (auto simp: cset_def split: option.splits)
    define r2 where "r2 = r1\<lparr>trace := trace r1 @ [NotCompatible l s],
                       compat := (compat r1)(l \<mapsto> removeAll s cur)\<rparr>"
    have rec: "check_states r2 l ss True = Inr (ch', r')"
      using Cons.prems(1) c False cur by (simp add: r2_def)
    have c2: "cset (compat r2) l = cset (compat r) l - {s}"
      using cur ev(2) by (auto simp: r2_def cset_Some)
    have IH: "inner_post r2 l ss True ch' r'"
      by (rule Cons.IH[OF rec]) (use ssub snot dss c2 in auto)
    have cF: "compatible r l s = Inr (False, r1)" using c False by simp
    show ?thesis
      by (rule inner_post_drop[OF cF cur r2_def sin IH])
  qed
qed

lemma check_labels_step:
  assumes "check_labels r (l # ls) ch = Inr (ch', r')"
  obtains cur ch1 r1 where "compat r l = Some cur"
    and "check_states r l (remdups cur) ch = Inr (ch1, r1)"
    and "inner_post r l (remdups cur) ch ch1 r1"
    and "check_labels r1 ls ch1 = Inr (ch', r')"
proof -
  from assms obtain cur where cur: "compat r l = Some cur"
    by (cases "compat r l") auto
  from assms cur obtain ch1 r1 where st: "check_states r l (remdups cur) ch = Inr (ch1, r1)"
    by (cases "check_states r l (remdups cur) ch") auto
  have post: "inner_post r l (remdups cur) ch ch1 r1"
    by (rule check_states_spec[OF st]) (simp_all add: cset_def cur)
  have rec: "check_labels r1 ls ch1 = Inr (ch', r')"
    using assms cur st by simp
  show thesis by (rule that[OF cur st post rec])
qed

lemma check_labels_shrinks:
  assumes "check_labels r ls ch = Inr (ch', r')"
  shows "evolves r r' \<and> (ch' \<longrightarrow> ch \<or> (\<exists>l\<in>set ls. cset (compat r') l \<noteq> cset (compat r) l))"
  using assms
proof (induction ls arbitrary: r ch)
  case Nil
  then show ?case by simp
next
  case (Cons l ls)
  from Cons.prems obtain cur ch1 r1 where cur: "compat r l = Some cur"
    and post: "inner_post r l (remdups cur) ch ch1 r1"
    and rec: "check_labels r1 ls ch1 = Inr (ch', r')"
    by (rule check_labels_step)
  have IH: "evolves r1 r'" "ch' \<Longrightarrow> ch1 \<or> (\<exists>l\<in>set ls. cset (compat r') l \<noteq> cset (compat r1) l)"
    using Cons.IH[OF rec] by simp_all
  have p: "evolves r r1" "ch1 = (ch \<or> cset (compat r1) l \<noteq> cset (compat r) l)"
    using post by (simp_all add: inner_post_def)
  have e: "evolves r r'" by (rule evolves_trans[OF p(1) IH(1)])
  have sub1: "\<And>k. cset (compat r') k \<subseteq> cset (compat r1) k"
    and sub0: "\<And>k. cset (compat r1) k \<subseteq> cset (compat r) k"
    using IH(1) p(1) by (simp_all add: evolves_def)
  have "ch \<or> (\<exists>k\<in>set (l # ls). cset (compat r') k \<noteq> cset (compat r) k)" if c': ch'
  proof (rule ccontr)
    assume n: "\<not> (ch \<or> (\<exists>k\<in>set (l # ls). cset (compat r') k \<noteq> cset (compat r) k))"
    then have same: "\<And>k. k \<in> set (l # ls) \<Longrightarrow> cset (compat r') k = cset (compat r) k" and "\<not> ch"
      by auto
    have mid: "cset (compat r1) k = cset (compat r) k" if "k \<in> set (l # ls)" for k
      using same[OF that] sub1[of k] sub0[of k] by auto
    have "\<not> ch1" using p(2) \<open>\<not> ch\<close> mid[of l] by simp
    then obtain k where "k \<in> set ls" "cset (compat r') k \<noteq> cset (compat r1) k"
      using IH(2)[OF c'] by auto
    then show False using same[of k] mid[of k] by simp
  qed
  then show ?case using e by simp
qed

lemma msize_decreases:
  assumes e: "evolves r r'" and ne: "l \<in> A" "cset (compat r') l \<noteq> cset (compat r) l"
    and fin: "finite A"
  shows "msize A r' < msize A r"
proof -
  have sub: "\<And>k. cset (compat r') k \<subseteq> cset (compat r) k"
    using e by (simp add: evolves_def)
  have le: "\<And>k. card (cset (compat r') k) \<le> card (cset (compat r) k)"
    by (rule card_mono) (simp_all add: sub)
  have "cset (compat r') l \<subset> cset (compat r) l" using sub[of l] ne(2) by auto
  then have lt: "card (cset (compat r') l) < card (cset (compat r) l)"
    by (intro psubset_card_mono) simp_all
  show ?thesis unfolding msize_def
    by (rule sum_strict_mono_ex1[OF fin]) (use le lt ne(1) in auto)
qed

lemma evolves_add_trace: "evolves r (r\<lparr>trace := trace r @ evs\<rparr>)"
  by (simp add: evolves_def static_def)

lemma msize_trace [simp]: "msize A (r\<lparr>trace := t\<rparr>) = msize A r"
  by (simp add: msize_def)

termination check_loop
proof (relation "measure (\<lambda>(ls, r). msize (set ls) r)")
  show "wf (measure (\<lambda>(ls, r). msize (set ls) r))" by simp
next
  fix allLabels :: "label list" and r :: refinement and x2 x1 r1
  assume a: "check_labels (r\<lparr>trace := trace r @ [CurrentRefinement]\<rparr>) allLabels False = Inr x2"
    and b: "(x1, r1) = x2" and c: "x1"
  let ?r0 = "r\<lparr>trace := trace r @ [CurrentRefinement]\<rparr>"
  have run: "check_labels ?r0 allLabels False = Inr (True, r1)"
    using a b c by simp
  from check_labels_shrinks[OF run]
  obtain l where e: "evolves ?r0 r1" and l: "l \<in> set allLabels"
    "cset (compat r1) l \<noteq> cset (compat ?r0) l"
    by auto
  have "msize (set allLabels) r1 < msize (set allLabels) ?r0"
    by (rule msize_decreases[OF e l]) simp
  then show "((allLabels, r1), (allLabels, r)) \<in> measure (\<lambda>(ls, r). msize (set ls) r)"
    by simp
qed

definition view_le :: "refinement \<Rightarrow> refinement \<Rightarrow> bool" where
  "view_le r r2 =
     (programLabels r2 = programLabels r \<and> state_to_node r2 = state_to_node r \<and>
      nextLabel r2 = nextLabel r \<and> eff r2 = eff r \<and>
      dom (compat r2) = dom (compat r) \<and> (\<forall>l. cset (compat r) l \<subseteq> cset (compat r2) l))"

lemma refines_mono:
  assumes v: "view_le r r2"
  shows "refines r lab t = Inl e \<Longrightarrow> refines r2 lab t = Inl e"
    and "refines r lab t = Inr True \<Longrightarrow> refines r2 lab t = Inr True"
    and "refines r lab t = Inr False \<Longrightarrow> (\<exists>b. refines r2 lab t = Inr b)"
  using v by (cases lab; auto simp: refines_Some refines_None view_le_def split: if_splits)+

lemma refines_cases:
  obtains (err) e where "refines r lab t = Inl e" | (yes) "refines r lab t = Inr True"
    | (no) "refines r lab t = Inr False"
  by (cases "refines r lab t") auto

lemma any_refines_mono:
  assumes v: "view_le r r2"
  shows "any_refines r xs n = Inr True \<Longrightarrow> any_refines r2 xs n = Inr True"
proof (induction xs)
  case Nil
  then show ?case by simp
next
  case (Cons x xs)
  show ?case
  proof (cases rule: refines_cases[of r "Some (get_label x)" n])
    case (err e)
    then show ?thesis using Cons.prems by simp
  next
    case yes
    then show ?thesis using refines_mono(2)[OF v yes] by simp
  next
    case no
    then obtain b where b: "refines r2 (Some (get_label x)) n = Inr b"
      using refines_mono(3)[OF v no] by blast
    have "any_refines r xs n = Inr True" using Cons.prems no by simp
    then show ?thesis using Cons.IH b by simp
  qed
qed

lemma findOne_mono:
  assumes v: "view_le r r2"
  shows "findOne r m acts n = Inr True \<Longrightarrow> findOne r2 m acts n = Inr True"
proof -
  assume a: "findOne r m acts n = Inr True"
  show ?thesis
  proof (cases rule: refines_cases[of r "Some (get_label m)" n])
    case (err e)
    then show ?thesis using a by (simp add: findOne_def)
  next
    case yes
    then show ?thesis using refines_mono(2)[OF v yes] by (simp add: findOne_def)
  next
    case no
    then obtain b where b: "refines r2 (Some (get_label m)) n = Inr b"
      using refines_mono(3)[OF v no] by blast
    have "any_refines r acts n = Inr True" using a no by (simp add: findOne_def)
    then show ?thesis using any_refines_mono[OF v] b by (simp add: findOne_def)
  qed
qed

lemma all_findOne_mono:
  assumes v: "view_le r r2"
  shows "all_findOne r m acts ns = Inr True \<Longrightarrow> all_findOne r2 m acts ns = Inr True"
proof (induction ns)
  case Nil
  then show ?case by simp
next
  case (Cons n ns)
  from Cons.prems have h: "findOne r m acts n = Inr True" and t: "all_findOne r m acts ns = Inr True"
    by (auto simp: bindE_eq_Inr split: if_splits)
  show ?case using findOne_mono[OF v h] Cons.IH[OF t] by simp
qed

lemma any_guard_val_mono:
  assumes v: "view_le r r2"
  shows "any_guard_val r c tgt gss = Inr True \<Longrightarrow> any_guard_val r2 c tgt gss = Inr True"
proof (induction gss)
  case Nil
  then show ?case by simp
next
  case (Cons gt gss)
  obtain g t where gt: "gt = (g, t)" by (cases gt)
  have e: "eff r2 = eff r" using v by (simp add: view_le_def)
  from Cons.prems obtain b where b: "eff r c g = Inr b"
    by (auto simp: gt bindE_eq_Inr)
  show ?case
  proof (cases b)
    case False
    then show ?thesis using Cons b by (simp add: gt e)
  next
    case True
    from Cons.prems b True obtain lab where lab: "tgt = Inr lab"
      by (cases tgt) (auto simp: gt)
    show ?thesis
    proof (cases rule: refines_cases[of r lab t])
      case (err e)
      then show ?thesis using Cons.prems b True lab by (simp add: gt)
    next
      case yes
      then show ?thesis using refines_mono(2)[OF v yes] b True lab by (simp add: gt e)
    next
      case no
      then obtain b2 where b2: "refines r2 lab t = Inr b2"
        using refines_mono(3)[OF v no] by blast
      have "any_guard_val r c tgt gss = Inr True" using Cons.prems b True lab no by (simp add: gt)
      then show ?thesis using Cons.IH b True lab b2 by (simp add: gt e)
    qed
  qed
qed

lemma nextStatement_le: "view_le r r2 \<Longrightarrow> nextStatement r2 = nextStatement r"
  by (simp add: view_le_def nextStatement_def fun_eq_iff split: option.splits)

lemma while_guarded_val_mono:
  assumes v: "view_le r r2"
  shows "while_guarded_val r l c prog gss = Inr True \<Longrightarrow> while_guarded_val r2 l c prog gss = Inr True"
  unfolding while_guarded_val_def nextStatement_le[OF v]
  by (auto simp: bindE_eq_Inr any_guard_val_mono[OF v] split: if_splits)

lemma bindE_mono:
  assumes "bindE m f = Inr True" and "\<And>x. m = Inr x \<Longrightarrow> f x = Inr True \<Longrightarrow> g x = Inr True"
  shows "bindE m g = Inr True"
  using assms by (cases m) auto

lemma compatible_val_mono:
  assumes v: "view_le r r2" and t: "compatible_val r l s = Inr True"
  shows "compatible_val r2 l s = Inr True"
proof -
  have f: "programLabels r2 = programLabels r" "state_to_node r2 = state_to_node r"
    using v by (simp_all add: view_le_def)
  note m = refines_mono(2)[OF v] any_refines_mono[OF v] all_findOne_mono[OF v]
    while_guarded_val_mono[OF v]
  show ?thesis
    using t unfolding compatible_val_def f nextStatement_le[OF v] if_guarded_view[of r2 r]
    apply (elim bindE_mono)
    apply (auto split: stmt.splits pnode.splits if_splits simp: bindE_eq_Inr m)
    done
qed

definition below :: "(label \<rightharpoonup> state list) \<Rightarrow> (label \<rightharpoonup> state list) \<Rightarrow> bool" where
  "below C D = (dom C = dom D \<and> (\<forall>l. cset C l \<subseteq> cset D l))"

definition closed_val :: "refinement \<Rightarrow> label set \<Rightarrow> (label \<rightharpoonup> state list) \<Rightarrow> bool" where
  "closed_val r A C = (\<forall>l\<in>A. \<forall>s\<in>cset C l. compatible_val (r\<lparr>compat := C\<rparr>) l s = Inr True)"

lemma evolves_static:
  assumes "evolves r r'"
  shows "programLabels r' = programLabels r" "state_to_node r' = state_to_node r"
    "nextLabel r' = nextLabel r" "program r' = program r" "projection r' = projection r"
    "eff r' = eff r"
  using assms by (simp_all add: evolves_def static_def)

lemma evolves_same_view_compat:
  "evolves r r' \<Longrightarrow> same_view (r\<lparr>compat := C\<rparr>) (r'\<lparr>compat := C\<rparr>)"
  by (simp add: same_view_def evolves_static)

lemma closed_val_evolves: "evolves r r' \<Longrightarrow> closed_val r' A C = closed_val r A C"
  by (simp add: closed_val_def compatible_val_view[OF evolves_same_view_compat])

lemma view_le_below: "below C (compat r) \<Longrightarrow> view_le (r\<lparr>compat := C\<rparr>) r"
  by (simp add: view_le_def below_def)

lemma not_removed_if_closed:
  assumes c: "compatible r l s = Inr (False, r1)" and lA: "l \<in> A"
    and cl: "closed_val r A C" and be: "below C (compat r)"
  shows "s \<notin> cset C l"
proof
  assume "s \<in> cset C l"
  then have "compatible_val (r\<lparr>compat := C\<rparr>) l s = Inr True"
    using cl lA by (simp add: closed_val_def)
  then have "compatible_val r l s = Inr True"
    by (rule compatible_val_mono[OF view_le_below[OF be]])
  then show False using compatible_result(4)[OF c] by simp
qed

lemma below_discard:
  assumes be: "below C (compat r)" and cur: "compat r l = Some cur" and s: "s \<notin> cset C l"
  shows "below C ((compat r)(l \<mapsto> removeAll s cur))"
proof -
  have d: "dom ((compat r)(l \<mapsto> removeAll s cur)) = dom (compat r)" using cur by auto
  have "cset C k \<subseteq> cset ((compat r)(l \<mapsto> removeAll s cur)) k" for k
  proof (cases "k = l")
    case True
    have "cset C l \<subseteq> cset (compat r) l" using be by (simp add: below_def)
    then have "cset C l \<subseteq> set cur" using cur by (simp add: cset_def)
    then show ?thesis using s True by auto
  next
    case False
    then show ?thesis using be by (simp add: below_def)
  qed
  then show ?thesis using be d by (simp add: below_def)
qed

lemma check_states_keeps:
  assumes "check_states r l ss ch = Inr (ch', r')" and "l \<in> A"
    and "closed_val r A C" and "below C (compat r)"
  shows "below C (compat r')"
  using assms
proof (induction ss arbitrary: r ch)
  case Nil
  then show ?case by simp
next
  case (Cons s ss)
  from Cons.prems(1) obtain b r1 where c: "compatible r l s = Inr (b, r1)"
    by (cases "compatible r l s") auto
  note ev = compatible_evolves[OF c]
  have cl1: "closed_val r1 A C" using Cons.prems(3) closed_val_evolves[OF ev(1)] by simp
  show ?case
  proof (cases b)
    case True
    then have rec: "check_states r1 l ss ch = Inr (ch', r')" using Cons.prems(1) c by simp
    show ?thesis by (rule Cons.IH[OF rec Cons.prems(2) cl1]) (simp add: ev(2) Cons.prems(4))
  next
    case False
    from Cons.prems(1) c False obtain cur where cur: "compat r1 l = Some cur"
      by (cases "compat r1 l") auto
    define r2 where "r2 = r1\<lparr>trace := trace r1 @ [NotCompatible l s],
                       compat := (compat r1)(l \<mapsto> removeAll s cur)\<rparr>"
    have rec: "check_states r2 l ss True = Inr (ch', r')"
      using Cons.prems(1) c False cur by (simp add: r2_def)
    have ev2: "evolves r1 r2" unfolding r2_def by (rule discard_evolves[OF cur])
    have cl2: "closed_val r2 A C" using cl1 closed_val_evolves[OF ev2] by simp
    have cF: "compatible r l s = Inr (False, r1)" using c False by simp
    have s: "s \<notin> cset C l"
      by (rule not_removed_if_closed[OF cF Cons.prems(2,3,4)])
    have be1: "below C (compat r1)" using Cons.prems(4) ev(2) by simp
    have be2: "below C (compat r2)"
      unfolding r2_def using below_discard[OF be1 cur s] by simp
    show ?thesis by (rule Cons.IH[OF rec Cons.prems(2) cl2 be2])
  qed
qed

lemma check_labels_keeps:
  assumes "check_labels r ls ch = Inr (ch', r')" and "set ls \<subseteq> A"
    and "closed_val r A C" and "below C (compat r)"
  shows "below C (compat r')"
  using assms
proof (induction ls arbitrary: r ch)
  case Nil
  then show ?case by simp
next
  case (Cons l ls)
  from Cons.prems(1) obtain cur ch1 r1 where cur: "compat r l = Some cur"
    and st: "check_states r l (remdups cur) ch = Inr (ch1, r1)"
    and post: "inner_post r l (remdups cur) ch ch1 r1"
    and rec: "check_labels r1 ls ch1 = Inr (ch', r')"
    by (rule check_labels_step)
  have lA: "l \<in> A" "set ls \<subseteq> A" using Cons.prems(2) by auto
  have be1: "below C (compat r1)"
    by (rule check_states_keeps[OF st lA(1) Cons.prems(3,4)])
  have e: "evolves r r1" using post by (simp add: inner_post_def)
  have cl1: "closed_val r1 A C" using Cons.prems(3) closed_val_evolves[OF e] by simp
  show ?case by (rule Cons.IH[OF rec lA(2) cl1 be1])
qed

lemma evolves_cset: "evolves r r' \<Longrightarrow> cset (compat r') l \<subseteq> cset (compat r) l"
  by (simp add: evolves_def)

lemma check_states_evaluates:
  assumes "check_states r l ss ch = Inr (ch', r')"
    and "set ss \<subseteq> cset (compat r) l" and "distinct ss" and "s \<in> set ss"
  shows "\<exists>r1 b r2. evolves r r1 \<and> evolves r1 r' \<and> compatible r1 l s = Inr (b, r2) \<and>
           (\<not> b \<longrightarrow> s \<notin> cset (compat r') l)"
  using assms
proof (induction ss arbitrary: r ch)
  case Nil
  then show ?case by simp
next
  case (Cons s0 ss)
  from Cons.prems(1) obtain b r1 where c: "compatible r l s0 = Inr (b, r1)"
    by (cases "compatible r l s0") auto
  note ev = compatible_evolves[OF c]
  have tot: "evolves r r'"
    using check_states_spec[OF Cons.prems(1,2,3)] by (simp add: inner_post_def)
  have sin: "s0 \<in> cset (compat r) l" and ssub: "set ss \<subseteq> cset (compat r) l"
    and snot: "s0 \<notin> set ss" and dss: "distinct ss"
    using Cons.prems(2,3) by auto
  show ?case
  proof (cases b)
    case True
    then have rec: "check_states r1 l ss ch = Inr (ch', r')" using Cons.prems(1) c by simp
    show ?thesis
    proof (cases "s = s0")
      case True
      have "evolves r r \<and> evolves r r' \<and> compatible r l s = Inr (b, r1) \<and>
           (\<not> b \<longrightarrow> s \<notin> cset (compat r') l)"
        using tot c True \<open>b\<close> by simp
      then show ?thesis by blast
    next
      case False
      then have "s \<in> set ss" using Cons.prems(4) by simp
      from Cons.IH[OF rec _ dss this] ssub ev(2)
      obtain ra ba rb where "evolves r1 ra" "evolves ra r'" "compatible ra l s = Inr (ba, rb)"
        "\<not> ba \<longrightarrow> s \<notin> cset (compat r') l"
        by auto
      then have "evolves r ra \<and> evolves ra r' \<and> compatible ra l s = Inr (ba, rb) \<and>
           (\<not> ba \<longrightarrow> s \<notin> cset (compat r') l)"
        using evolves_trans[OF ev(1)] by simp
      then show ?thesis by blast
    qed
  next
    case False
    obtain cur where cur: "compat r1 l = Some cur"
      using sin ev(2) by (auto simp: cset_def split: option.splits)
    define r2 where "r2 = r1\<lparr>trace := trace r1 @ [NotCompatible l s0],
                       compat := (compat r1)(l \<mapsto> removeAll s0 cur)\<rparr>"
    have rec: "check_states r2 l ss True = Inr (ch', r')"
      using Cons.prems(1) c False cur by (simp add: r2_def)
    have ev2: "evolves r1 r2" unfolding r2_def by (rule discard_evolves[OF cur])
    have c2: "cset (compat r2) l = cset (compat r) l - {s0}"
      using cur ev(2) by (auto simp: r2_def cset_Some)
    have sub2: "set ss \<subseteq> cset (compat r2) l" using ssub snot c2 by auto
    have tot2: "evolves r2 r'"
      using check_states_spec[OF rec sub2 dss] by (simp add: inner_post_def)
    show ?thesis
    proof (cases "s = s0")
      case True
      have "s0 \<notin> cset (compat r') l" using evolves_cset[OF tot2, of l] c2 by auto
      then have "evolves r r \<and> evolves r r' \<and> compatible r l s = Inr (b, r1) \<and>
           (\<not> b \<longrightarrow> s \<notin> cset (compat r') l)"
        using tot c True by simp
      then show ?thesis by blast
    next
      case False
      then have "s \<in> set ss" using Cons.prems(4) by simp
      from Cons.IH[OF rec sub2 dss this]
      obtain ra ba rb where "evolves r2 ra" "evolves ra r'" "compatible ra l s = Inr (ba, rb)"
        "\<not> ba \<longrightarrow> s \<notin> cset (compat r') l"
        by auto
      then have "evolves r ra \<and> evolves ra r' \<and> compatible ra l s = Inr (ba, rb) \<and>
           (\<not> ba \<longrightarrow> s \<notin> cset (compat r') l)"
        using evolves_trans[OF ev(1) evolves_trans[OF ev2]] by simp
      then show ?thesis by blast
    qed
  qed
qed

lemma check_labels_evaluates:
  assumes "check_labels r ls ch = Inr (ch', r')"
    and "distinct ls" and "l \<in> set ls" and "s \<in> cset (compat r) l"
  shows "\<exists>r1 b r2. evolves r r1 \<and> evolves r1 r' \<and> compatible r1 l s = Inr (b, r2) \<and>
           (\<not> b \<longrightarrow> s \<notin> cset (compat r') l)"
  using assms
proof (induction ls arbitrary: r ch)
  case Nil
  then show ?case by simp
next
  case (Cons l0 ls)
  from Cons.prems(1) obtain cur ch1 r1 where cur: "compat r l0 = Some cur"
    and st: "check_states r l0 (remdups cur) ch = Inr (ch1, r1)"
    and post: "inner_post r l0 (remdups cur) ch ch1 r1"
    and rec: "check_labels r1 ls ch1 = Inr (ch', r')"
    by (rule check_labels_step)
  have e1: "evolves r r1" using post by (simp add: inner_post_def)
  have e2: "evolves r1 r'" using check_labels_shrinks[OF rec] by simp
  have d: "l0 \<notin> set ls" "distinct ls" using Cons.prems(2) by auto
  show ?case
  proof (cases "l = l0")
    case True
    have "s \<in> set (remdups cur)" using Cons.prems(4) cur True by (simp add: cset_def)
    from check_states_evaluates[OF st _ _ this] cur
    obtain ra ba rb where a: "evolves r ra" "evolves ra r1" "compatible ra l0 s = Inr (ba, rb)"
      "\<not> ba \<longrightarrow> s \<notin> cset (compat r1) l0"
      by (auto simp: cset_def)
    have "\<not> ba \<longrightarrow> s \<notin> cset (compat r') l" using a(4) evolves_cset[OF e2, of l0] True by auto
    then have "evolves r ra \<and> evolves ra r' \<and> compatible ra l s = Inr (ba, rb) \<and>
           (\<not> ba \<longrightarrow> s \<notin> cset (compat r') l)"
      using a evolves_trans[OF a(2) e2] True by simp
    then show ?thesis by blast
  next
    case False
    then have lin: "l \<in> set ls" using Cons.prems(3) by simp
    have "compat r1 l = compat r l" using post False by (simp add: inner_post_def)
    then have "s \<in> cset (compat r1) l" using Cons.prems(4) by (simp add: cset_def)
    from Cons.IH[OF rec d(2) lin this]
    obtain ra ba rb where a: "evolves r1 ra" "evolves ra r'" "compatible ra l s = Inr (ba, rb)"
      "\<not> ba \<longrightarrow> s \<notin> cset (compat r') l"
      by auto
    then have "evolves r ra \<and> evolves ra r' \<and> compatible ra l s = Inr (ba, rb) \<and>
           (\<not> ba \<longrightarrow> s \<notin> cset (compat r') l)"
      using evolves_trans[OF e1] by simp
    then show ?thesis by blast
  qed
qed

definition pass_post :: "refinement \<Rightarrow> label list \<Rightarrow> bool \<Rightarrow> bool \<Rightarrow> refinement \<Rightarrow> bool" where
  "pass_post r ls ch ch' r' =
     ((\<forall>l'. l' \<notin> set ls \<longrightarrow> compat r' l' = compat r l') \<and>
      (\<not> ch' \<longrightarrow> compat r' = compat r) \<and>
      (ch \<longrightarrow> ch') \<and>
      n_removed r' + msize (set ls) r' = n_removed r + msize (set ls) r \<and>
      n_evaluated r' = n_evaluated r + msize (set ls) r \<and>
      n_passes r' = n_passes r)"

lemma msize_insert:
  "l \<notin> set ls \<Longrightarrow> msize (set (l # ls)) r = card (cset (compat r) l) + msize (set ls) r"
  by (simp add: msize_def)

lemma msize_cong:
  "(\<And>l. l \<in> A \<Longrightarrow> compat r' l = compat r l) \<Longrightarrow> msize A r' = msize A r"
  unfolding msize_def by (rule sum.cong) (simp_all add: cset_def)

lemma msize_mono: "evolves r r' \<Longrightarrow> msize A r' \<le> msize A r"
  unfolding msize_def by (rule sum_mono) (simp add: card_mono evolves_cset)

lemma check_labels_count:
  assumes "check_labels r ls ch = Inr (ch', r')" and "distinct ls"
  shows "pass_post r ls ch ch' r'"
  using assms
proof (induction ls arbitrary: r ch)
  case Nil
  then show ?case by (simp add: pass_post_def msize_def)
next
  case (Cons l ls)
  from Cons.prems(1) obtain cur ch1 r1 where cur: "compat r l = Some cur"
    and post: "inner_post r l (remdups cur) ch ch1 r1"
    and rec: "check_labels r1 ls ch1 = Inr (ch', r')"
    by (rule check_labels_step)
  have d: "l \<notin> set ls" "distinct ls" using Cons.prems(2) by auto
  have p: "\<And>l'. l' \<noteq> l \<Longrightarrow> compat r1 l' = compat r l'"
    "ch1 = (ch \<or> cset (compat r1) l \<noteq> cset (compat r) l)"
    "\<not> ch1 \<Longrightarrow> compat r1 = compat r"
    "n_removed r1 + card (cset (compat r1) l) = n_removed r + card (cset (compat r) l)"
    "n_evaluated r1 = n_evaluated r + length (remdups cur)"
    "n_passes r1 = n_passes r"
    using post by (simp_all add: inner_post_def)
  have i: "\<And>l'. l' \<notin> set ls \<Longrightarrow> compat r' l' = compat r1 l'"
    "\<not> ch' \<Longrightarrow> compat r' = compat r1"
    "ch1 \<Longrightarrow> ch'"
    "n_removed r' + msize (set ls) r' = n_removed r1 + msize (set ls) r1"
    "n_evaluated r' = n_evaluated r1 + msize (set ls) r1"
    "n_passes r' = n_passes r1"
    using Cons.IH[OF rec d(2)] by (simp_all add: pass_post_def)
  have m1: "msize (set ls) r1 = msize (set ls) r"
  proof (rule msize_cong)
    fix k assume "k \<in> set ls"
    then have "k \<noteq> l" using d(1) by auto
    then show "compat r1 k = compat r k" by (rule p(1))
  qed
  have l': "cset (compat r') l = cset (compat r1) l"
    using i(1)[OF d(1)] by (simp add: cset_def)
  have len: "length (remdups cur) = card (cset (compat r) l)"
    using cur by (simp add: cset_def length_remdups_card_conv)
  have a: "\<forall>l'. l' \<notin> set (l # ls) \<longrightarrow> compat r' l' = compat r l'"
    using i(1) p(1) by simp
  have b: "\<not> ch' \<longrightarrow> compat r' = compat r"
    using i(2) i(3) p(3) by auto
  have c: "ch \<longrightarrow> ch'" using i(3) p(2) by auto
  have e: "n_removed r' + msize (set (l # ls)) r' = n_removed r + msize (set (l # ls)) r"
    unfolding msize_insert[OF d(1)] l' using i(4) p(4) m1 by simp
  have f: "n_evaluated r' = n_evaluated r + msize (set (l # ls)) r"
    unfolding msize_insert[OF d(1)] using i(5) p(5) m1 len by simp
  have g: "n_passes r' = n_passes r" using i(6) p(6) by simp
  show ?case unfolding pass_post_def using a b c e f g by blast
qed

definition loop_post :: "label list \<Rightarrow> refinement \<Rightarrow> refinement \<Rightarrow> bool" where
  "loop_post ls r r' =
     (evolves r r' \<and>
      n_removed r' + msize (set ls) r' = n_removed r + msize (set ls) r \<and>
      n_passes r < n_passes r' \<and>
      n_passes r' \<le> n_passes r + (n_removed r' - n_removed r) + 1 \<and>
      n_evaluated r' \<le> n_evaluated r + (n_passes r' - n_passes r) * msize (set ls) r \<and>
      closed_val r' (set ls) (compat r') \<and>
      (\<forall>C. closed_val r (set ls) C \<and> below C (compat r) \<longrightarrow> below C (compat r')))"

lemma same_view_sandwich:
  assumes "evolves r ra" and "evolves ra r'" and "compat r' = compat r"
  shows "same_view ra r'"
proof -
  have "cset (compat r') l = cset (compat ra) l" for l
    using evolves_cset[OF assms(1), of l] evolves_cset[OF assms(2), of l] assms(3) by auto
  moreover have "dom (compat r') = dom (compat ra)" using assms(2) by (simp add: evolves_def)
  ultimately show ?thesis using evolves_static[OF assms(2)] by (simp add: same_view_def)
qed

lemma compat_self [simp]: "r\<lparr>compat := compat r\<rparr> = r"
  by simp

lemma quiet_pass_closed:
  assumes run: "check_labels r ls False = Inr (False, r')" and d: "distinct ls"
  shows "closed_val r' (set ls) (compat r')"
  unfolding closed_val_def
proof (intro ballI)
  fix l s assume l: "l \<in> set ls" and s: "s \<in> cset (compat r') l"
  have same: "compat r' = compat r"
    using check_labels_count[OF run d] by (simp add: pass_post_def)
  have sr: "s \<in> cset (compat r) l" using s same by simp
  from check_labels_evaluates[OF run d l sr]
  obtain ra b rb where a: "evolves r ra" "evolves ra r'" "compatible ra l s = Inr (b, rb)"
    "\<not> b \<longrightarrow> s \<notin> cset (compat r') l"
    by blast
  have b using a(4) s by auto
  then have "compatible_val ra l s = Inr True" using compatible_result(4)[OF a(3)] by simp
  then have "compatible_val r' l s = Inr True"
    using compatible_val_view[OF same_view_sandwich[OF a(1,2) same]] by simp
  then show "compatible_val (r'\<lparr>compat := compat r'\<rparr>) l s = Inr True" by simp
qed

lemma pass_start:
  fixes r :: refinement
  defines "r0 \<equiv> r\<lparr>trace := trace r @ [CurrentRefinement]\<rparr>"
  shows "evolves r r0" "compat r0 = compat r" "n_removed r0 = n_removed r"
    "n_evaluated r0 = n_evaluated r" "n_passes r0 = Suc (n_passes r)" "msize A r0 = msize A r"
  by (simp_all add: r0_def evolves_add_trace n_removed_def n_evaluated_def n_passes_def)

lemma check_loop_spec:
  assumes "check_loop ls r = Inr r'" and "distinct ls"
  shows "loop_post ls r r'"
  using assms
proof (induction ls r rule: check_loop.induct)
  case (1 ls r)
  let ?r0 = "r\<lparr>trace := trace r @ [CurrentRefinement]\<rparr>"
  note s0 = pass_start[where r=r]
  from "1.prems"(1) obtain ch r1 where run: "check_labels ?r0 ls False = Inr (ch, r1)"
    by (subst (asm) check_loop.simps) (auto split: sum.splits)
  have e01: "evolves ?r0 r1" using check_labels_shrinks[OF run] by simp
  have e1: "evolves r r1" by (rule evolves_trans[OF s0(1) e01])
  have pp: "\<not> ch \<Longrightarrow> compat r1 = compat r"
    "n_removed r1 + msize (set ls) r1 = n_removed r + msize (set ls) r"
    "n_evaluated r1 = n_evaluated r + msize (set ls) r"
    "n_passes r1 = Suc (n_passes r)"
    using check_labels_count[OF run "1.prems"(2)] s0 by (simp_all add: pass_post_def)
  have keep: "below C (compat r1)" if "closed_val r (set ls) C" "below C (compat r)" for C
  proof -
    have "closed_val ?r0 (set ls) C" using that(1) closed_val_evolves[OF s0(1)] by simp
    moreover have "below C (compat ?r0)" using that(2) by simp
    ultimately show ?thesis using check_labels_keeps[OF run subset_refl] by blast
  qed
  show ?case
  proof (cases ch)
    case False
    have r': "r' = r1" using "1.prems"(1) run False by (subst (asm) check_loop.simps) simp
    have runF: "check_labels ?r0 ls False = Inr (False, r1)" using run False by simp
    have cl: "closed_val r1 (set ls) (compat r1)"
      by (rule quiet_pass_closed[OF runF "1.prems"(2)])
    show ?thesis
      unfolding loop_post_def r'
      using e1 pp cl keep False by simp
  next
    case True
    have rec: "check_loop ls r1 = Inr r'"
      using "1.prems"(1) run True by (subst (asm) check_loop.simps) simp
    have IH: "loop_post ls r1 r'"
      by (rule "1.IH"[OF run refl True rec "1.prems"(2)])
    have i: "evolves r1 r'"
      "n_removed r' + msize (set ls) r' = n_removed r1 + msize (set ls) r1"
      "n_passes r1 < n_passes r'"
      "n_passes r' \<le> n_passes r1 + (n_removed r' - n_removed r1) + 1"
      "n_evaluated r' \<le> n_evaluated r1 + (n_passes r' - n_passes r1) * msize (set ls) r1"
      "closed_val r' (set ls) (compat r')"
      "\<And>C. closed_val r1 (set ls) C \<Longrightarrow> below C (compat r1) \<Longrightarrow> below C (compat r')"
      using IH by (simp_all add: loop_post_def)
    obtain l where l: "l \<in> set ls" "cset (compat r1) l \<noteq> cset (compat ?r0) l"
      using check_labels_shrinks[OF run] True by auto
    have lt: "msize (set ls) r1 < msize (set ls) r"
      using msize_decreases[OF e01 l] by simp
    have le': "msize (set ls) r' \<le> msize (set ls) r1" by (rule msize_mono[OF i(1)])
    have rm1: "n_removed r < n_removed r1" using pp(2) lt by linarith
    have rm2: "n_removed r1 \<le> n_removed r'" using i(2) le' by linarith
    have a: "evolves r r'" by (rule evolves_trans[OF e1 i(1)])
    have b: "n_removed r' + msize (set ls) r' = n_removed r + msize (set ls) r"
      using i(2) pp(2) by simp
    have c: "n_passes r < n_passes r'" using i(3) pp(4) by simp
    have d: "n_passes r' \<le> n_passes r + (n_removed r' - n_removed r) + 1"
      using i(4) pp(4) rm1 rm2 by linarith
    define p where "p = n_passes r' - n_passes r1"
    have p: "n_passes r' = n_passes r1 + p" using i(3) by (simp add: p_def)
    have "n_evaluated r' \<le> n_evaluated r1 + p * msize (set ls) r1" using i(5) p by simp
    also have "\<dots> \<le> n_evaluated r1 + p * msize (set ls) r"
      using lt by (simp add: mult_le_mono2)
    also have "\<dots> = n_evaluated r + Suc p * msize (set ls) r" using pp(3) by simp
    also have "Suc p = n_passes r' - n_passes r" using p pp(4) by simp
    finally have e: "n_evaluated r' \<le> n_evaluated r + (n_passes r' - n_passes r) * msize (set ls) r" .
    have g: "below C (compat r')" if "closed_val r (set ls) C" "below C (compat r)" for C
      using i(7)[OF _ keep[OF that]] that(1) closed_val_evolves[OF e1] by simp
    show ?thesis
      unfolding loop_post_def using a b c d e i(6) g by blast
  qed
qed

section \<open>The claims\<close>

subsection \<open>C8: the name predicates\<close>

lemma length_lower [simp]: "length (lower s) = length s"
  by (simp add: lower_def)

lemma lower_m: "lower (''m_'' @ s) = ''m_'' @ lower s"
  by (simp add: lower_def lower_char_def)

lemma lower_msg: "lower (''msg_'' @ s) = ''msg_'' @ lower s"
  by (simp add: lower_def lower_char_def)

lemma lower_neq_longer: "length t \<noteq> length s \<Longrightarrow> lower s \<noteq> t"
  using length_lower by blast

text \<open>
  C8, as the source has it. Both names are lowered before either comparison:
  \<open>sameMpName n1 n2\<close> holds iff \<open>n1\<close> and \<open>n2\<close> are equal up to case, or \<open>n1\<close> is equal up to case
  to \<open>"m_"\<close> followed by \<open>n2\<close>; \<open>sameMsgName\<close> likewise with \<open>"msg_"\<close>. Neither predicate
  accepts a name against its own prefixed form in the second argument.
\<close>

theorem sameName_case_insensitive_prefix:
  "(sameMpName n1 n2 \<longleftrightarrow> lower n1 = lower n2 \<or> lower n1 = lower (''m_'' @ n2)) \<and>
   (sameMsgName n1 n2 \<longleftrightarrow> lower n1 = lower n2 \<or> lower n1 = lower (''msg_'' @ n2)) \<and>
   \<not> sameMpName n2 (''m_'' @ n2) \<and> \<not> sameMsgName n2 (''msg_'' @ n2)"
proof -
  have a: "\<not> sameMpName n2 (''m_'' @ n2)"
    unfolding sameMpName_def Let_def by (simp add: lower_neq_longer)
  have b: "\<not> sameMsgName n2 (''msg_'' @ n2)"
    unfolding sameMsgName_def Let_def by (simp add: lower_neq_longer)
  show ?thesis using a b
    by (simp add: sameMpName_def sameMsgName_def Let_def lower_m lower_msg del: append.simps)
qed

text \<open>
  C8 as stated fails: \<open>sameMpName\<close> accepts \<open>"M_a"\<close> against \<open>"a"\<close>, although the two names
  are not equal up to case and \<open>"M_a"\<close> is not \<open>"m_"\<close> followed by \<open>"a"\<close>.
\<close>

theorem sameMpName_counterexample:
  "sameMpName ''M_a'' ''a'' \<and> lower ''M_a'' \<noteq> lower ''a'' \<and> ''M_a'' \<noteq> ''m_'' @ ''a''"
  by code_simp

subsection \<open>buildCFA only adds edges\<close>

definition grows :: "(label \<rightharpoonup> label list) \<Rightarrow> (label \<rightharpoonup> label list) \<Rightarrow> bool" where
  "grows nl nl' = (dom nl' = dom nl \<and> (\<forall>k. cset nl k \<subseteq> cset nl' k))"

lemma grows_refl [simp]: "grows nl nl"
  by (simp add: grows_def)

lemma grows_trans: "grows a b \<Longrightarrow> grows b c \<Longrightarrow> grows a c"
proof -
  assume ab: "grows a b" and bc: "grows b c"
  have "cset a k \<subseteq> cset c k" for k
    using ab bc unfolding grows_def by (meson subset_trans)
  moreover have "dom c = dom a" using ab bc by (simp add: grows_def)
  ultimately show ?thesis by (simp add: grows_def)
qed

lemma grows_cset: "grows nl nl' \<Longrightarrow> x \<in> cset nl k \<Longrightarrow> x \<in> cset nl' k"
  by (auto simp: grows_def)

lemma set_set_add [simp]: "set (set_add x xs) = insert x (set xs)"
  by (auto simp: set_add_def)

lemma connect_spec:
  "connect ls l nl = Inr nl' \<Longrightarrow> grows nl nl' \<and> (\<forall>k\<in>set ls. l \<in> cset nl' k)"
proof (induction ls arbitrary: nl)
  case Nil
  then show ?case by simp
next
  case (Cons p ps)
  from Cons.prems obtain succs where s: "nl p = Some succs"
    by (cases "nl p") auto
  let ?nl1 = "nl(p \<mapsto> set_add l succs)"
  have rec: "connect ps l ?nl1 = Inr nl'" using Cons.prems s by simp
  have g1: "grows nl ?nl1"
    using s by (auto simp: grows_def cset_def)
  have IH: "grows ?nl1 nl'" "\<forall>k\<in>set ps. l \<in> cset nl' k"
    using Cons.IH[OF rec] by blast+
  have "l \<in> cset ?nl1 p" by simp
  then have "l \<in> cset nl' p" by (rule grows_cset[OF IH(1)])
  then show ?case using grows_trans[OF g1 IH(1)] IH(2) by simp
qed

lemma buildCFA_grows:
  "buildCFA ls st nl = Inr (ex, nl') \<Longrightarrow> grows nl nl' \<and> (\<forall>k\<in>set ls. get_label st \<in> cset nl' k)"
  "buildCFA_children ls cs nl = Inr (ex, nl') \<Longrightarrow> grows nl nl'"
  "buildCFA_each ls xs acc nl = Inr (ex, nl') \<Longrightarrow>
     grows nl nl' \<and> (\<forall>x\<in>set xs. \<forall>k\<in>set ls. get_label x \<in> cset nl' k)"
proof (induction ls st nl and ls cs nl and ls xs acc nl arbitrary: ex nl' and ex nl' and ex nl'
    rule: buildCFA_buildCFA_children_buildCFA_each.induct)
  case (1 lastLabels l children nl)
  from "1.prems" obtain nl1 where c: "connect lastLabels l nl = Inr nl1"
    by (cases "connect lastLabels l nl") auto
  have r: "buildCFA_children [l] children nl1 = Inr (ex, nl')" using "1.prems" c by simp
  have g: "grows nl1 nl'" by (rule "1.IH"[OF c r])
  show ?case using connect_spec[OF c] g by (auto intro: grows_trans grows_cset)
next
  case (2 lastLabels l motion actions nl)
  from "2.prems" obtain nl1 where c: "connect lastLabels l nl = Inr nl1"
    by (cases "connect lastLabels l nl") auto
  from "2.prems" c obtain ls2 nl2 where m: "buildCFA [l] motion nl1 = Inr (ls2, nl2)"
    by (cases "buildCFA [l] motion nl1") auto
  from "2.prems" c m obtain nl3 where c2: "connect ls2 l nl2 = Inr nl3"
    by (cases "connect ls2 l nl2") auto
  have r: "buildCFA_each [l] actions [] nl3 = Inr (ex, nl')" using "2.prems" c m c2 by simp
  have g1: "grows nl nl1" "\<forall>k\<in>set lastLabels. l \<in> cset nl1 k" using connect_spec[OF c] by simp_all
  have g2: "grows nl1 nl2" using "2.IH"(1)[OF c m] by simp
  have g3: "grows nl2 nl3" using connect_spec[OF c2] by simp
  have g4: "grows nl3 nl'" using "2.IH"(2)[OF c m refl c2 r] by simp
  have g: "grows nl1 nl'" by (rule grows_trans[OF g2 grows_trans[OF g3 g4]])
  show ?case using g1 g by (auto intro: grows_trans grows_cset)
next
  case (3 lastLabels l mt prog nl)
  from "3.prems" obtain nl1 where c: "connect lastLabels l nl = Inr nl1"
    by (cases "connect lastLabels l nl") auto
  have r: "buildCFA [l] prog nl1 = Inr (ex, nl')" using "3.prems" c by simp
  have g: "grows nl1 nl'" using "3.IH"[OF c r] by simp
  show ?case using connect_spec[OF c] g by (auto intro: grows_trans grows_cset)
next
  case (4 lastLabels l if_list nl)
  from "4.prems" obtain nl1 where c: "connect lastLabels l nl = Inr nl1"
    by (cases "connect lastLabels l nl") auto
  have r: "buildCFA_each [l] if_list [] nl1 = Inr (ex, nl')" using "4.prems" c by simp
  have g: "grows nl1 nl'" using "4.IH"[OF c r] by simp
  show ?case using connect_spec[OF c] g by (auto intro: grows_trans grows_cset)
next
  case (5 lastLabels l cnd prog nl)
  from "5.prems" obtain nl1 where c: "connect lastLabels l nl = Inr nl1"
    by (cases "connect lastLabels l nl") auto
  have r: "buildCFA [l] prog nl1 = Inr (ex, nl')" using "5.prems" c by simp
  have g: "grows nl1 nl'" using "5.IH"[OF c r] by simp
  show ?case using connect_spec[OF c] g by (auto intro: grows_trans grows_cset)
next
  case (6 lastLabels l cnd prog nl)
  from "6.prems" obtain nl1 where c: "connect lastLabels l nl = Inr nl1"
    by (cases "connect lastLabels l nl") auto
  from "6.prems" c obtain ls2 nl2 where m: "buildCFA [] prog nl1 = Inr (ls2, nl2)"
    by (cases "buildCFA [] prog nl1") auto
  from "6.prems" c m obtain nl3 where c2: "connect ls2 l nl2 = Inr nl3"
    by (cases "connect ls2 l nl2") auto
  have e: "nl' = nl3" using "6.prems" c m c2 by simp
  have g2: "grows nl1 nl2" using "6.IH"[OF c m] by simp
  have g3: "grows nl2 nl3" using connect_spec[OF c2] by simp
  have g: "grows nl1 nl'" unfolding e by (rule grows_trans[OF g2 g3])
  show ?case using connect_spec[OF c] g by (auto intro: grows_trans grows_cset)
next
  case (7 lastLabels l v nl)
  then show ?case using connect_spec[of lastLabels l nl nl'] by (auto split: sum.splits)
next
  case (8 lastLabels l nl)
  then show ?case using connect_spec[of lastLabels l nl nl'] by (auto split: sum.splits)
next
  case (9 lastLabels l c mt nl)
  then show ?case using connect_spec[of lastLabels l nl nl'] by (auto split: sum.splits)
next
  case (10 lastLabels l nl)
  then show ?case using connect_spec[of lastLabels l nl nl'] by (auto split: sum.splits)
next
  case (11 lastLabels l nl)
  then show ?case using connect_spec[of lastLabels l nl nl'] by (auto split: sum.splits)
next
  case (12 lastLabels l nl)
  then show ?case using connect_spec[of lastLabels l nl nl'] by (auto split: sum.splits)
next
  case (13 lastLabel nl)
  then show ?case by simp
next
  case (14 lastLabel c cs nl)
  from "14.prems" obtain l1 nl1 where b: "buildCFA lastLabel c nl = Inr (l1, nl1)"
    by (cases "buildCFA lastLabel c nl") auto
  have r: "buildCFA_children l1 cs nl1 = Inr (ex, nl')" using "14.prems" b by simp
  have g1: "grows nl nl1" using "14.IH"(1)[OF b] by simp
  have g2: "grows nl1 nl'" by (rule "14.IH"(2)[OF b refl r])
  show ?case by (rule grows_trans[OF g1 g2])
next
  case (15 lastLabel acc nl)
  then show ?case by simp
next
  case (16 lastLabel i rest acc nl)
  from "16.prems" obtain ls nl1 where b: "buildCFA lastLabel i nl = Inr (ls, nl1)"
    by (cases "buildCFA lastLabel i nl") auto
  have r: "buildCFA_each lastLabel rest (fold set_add ls acc) nl1 = Inr (ex, nl')"
    using "16.prems" b by simp
  have g1: "grows nl nl1" "\<forall>k\<in>set lastLabel. get_label i \<in> cset nl1 k"
    using "16.IH"(1)[OF b] by simp_all
  have g2: "grows nl1 nl'" "\<forall>x\<in>set rest. \<forall>k\<in>set lastLabel. get_label x \<in> cset nl' k"
    using "16.IH"(2)[OF b refl r] by simp_all
  show ?case using g1 g2 by (auto intro: grows_trans grows_cset)
qed

subsection \<open>Instances for the witnesses\<close>

text \<open>
  A decision procedure for the examples: \<open>a \<and> \<not> b\<close> is unsatisfiable iff \<open>a\<close> and \<open>b\<close> are the
  same expression.
\<close>

definition dis_syntactic :: "cond \<Rightarrow> bool option" where
  "dis_syntactic f = (case f of And_cond a (Not_cond b) \<Rightarrow> Some (a = b) | _ \<Rightarrow> None)"

text \<open>
  The program \<open>Send(P, "Go"); Exit\<close> against the projection that sends \<open>"Go"\<close> to \<open>P\<close> and ends.
\<close>

definition send_prog :: stmt where
  "send_prog = Statement 0 [Send 1 ''P'' ''Go'', Exit 2]"

definition send_labels :: "(label \<times> stmt) list" where
  "send_labels = [(0, send_prog), (1, Send 1 ''P'' ''Go''), (2, Exit 2)]"

definition send_proj :: projection where
  "send_proj = \<lparr> start_state = 0, mk_state_to_node = [(0, SendMessage ''P'' ''Go'' [1]), (1, End)] \<rparr>"

definition send_r :: refinement where
  "send_r = projr (init send_prog send_labels send_proj dis_syntactic)"

lemmas send_defs = send_r_def init_def send_prog_def send_labels_def send_proj_def
  dis_syntactic_def set_add_def

lemmas eval_defs = check_def universal_def allLabels_of_def allState_of_def
  compatible_def lookup_def refines_def nextStatement_def Let_def index0_def
  sameMsgName_def sameMpName_def lower_def lower_char_def ret_def

lemma send_init: "init send_prog send_labels send_proj dis_syntactic = Inr send_r"
  by (simp add: send_defs)

lemma send_check: "\<exists>r'. check send_r = Inr (True, r')"
  by (simp add: send_defs eval_defs)

lemma send_sizes: "length (allLabels_of send_r) = 3" "length (allState_of send_r) = 2"
  by (simp_all add: send_defs eval_defs)

lemma send_pass:
  "\<exists>r'. check_labels (send_r\<lparr>compat := universal send_r\<rparr>) (allLabels_of send_r) False = Inr (True, r')"
  by (simp add: send_defs eval_defs)

subsection \<open>What check computes\<close>

lemma msize_universal:
  "msize (set (allLabels_of r)) (r\<lparr>compat := universal r\<rparr>) =
     length (allLabels_of r) * length (allState_of r)"
proof -
  have c: "card (cset (universal r) l) = length (allState_of r)" if "l \<in> set (allLabels_of r)" for l
    using that by (simp add: cset_def universal_def allState_of_def length_remdups_card_conv)
  have "msize (set (allLabels_of r)) (r\<lparr>compat := universal r\<rparr>) =
          (\<Sum>l\<in>set (allLabels_of r). length (allState_of r))"
    unfolding msize_def by (rule sum.cong) (simp_all add: c)
  also have "\<dots> = card (set (allLabels_of r)) * length (allState_of r)" by simp
  also have "card (set (allLabels_of r)) = length (allLabels_of r)"
    by (simp add: allLabels_of_def length_remdups_card_conv)
  finally show ?thesis .
qed

lemma check_run:
  assumes "check r = Inr (b, r')"
  shows "check_loop (allLabels_of r) (r\<lparr>compat := universal r\<rparr>) = Inr r'"
    and "loop_post (allLabels_of r) (r\<lparr>compat := universal r\<rparr>) r'"
    and "get_label (program r) \<in> dom (compat r')"
    and "b = (start_state (projection r) \<in> cset (compat r') (get_label (program r)))"
proof -
  from assms obtain r1 where l: "check_loop (allLabels_of r) (r\<lparr>compat := universal r\<rparr>) = Inr r1"
    by (cases "check_loop (allLabels_of r) (r\<lparr>compat := universal r\<rparr>)") (auto simp: check_def)
  from assms l obtain ss where ss: "compat r1 (get_label (program r1)) = Some ss"
    by (cases "compat r1 (get_label (program r1))") (auto simp: check_def)
  have r': "r' = r1" and b: "b = (start_state (projection r1) \<in> set ss)"
    using assms l ss by (auto simp: check_def)
  have post: "loop_post (allLabels_of r) (r\<lparr>compat := universal r\<rparr>) r1"
    by (rule check_loop_spec[OF l]) (simp add: allLabels_of_def)
  then have ev: "evolves (r\<lparr>compat := universal r\<rparr>) r1" by (simp add: loop_post_def)
  have st: "program r1 = program r" "projection r1 = projection r"
    using evolves_static[OF ev] by simp_all
  show "check_loop (allLabels_of r) (r\<lparr>compat := universal r\<rparr>) = Inr r'" using l r' by simp
  show "loop_post (allLabels_of r) (r\<lparr>compat := universal r\<rparr>) r'" using post r' by simp
  show "get_label (program r) \<in> dom (compat r')" using ss st r' by auto
  show "b = (start_state (projection r) \<in> cset (compat r') (get_label (program r)))"
    using b ss st r' by (simp add: cset_def)
qed

lemma counters_compat [simp]:
  "n_removed (r\<lparr>compat := C\<rparr>) = n_removed r"
  "n_evaluated (r\<lparr>compat := C\<rparr>) = n_evaluated r"
  "n_passes (r\<lparr>compat := C\<rparr>) = n_passes r"
  by (simp_all add: n_removed_def n_evaluated_def n_passes_def)

lemma check_counts:
  assumes "check r = Inr (b, r')"
  defines "N \<equiv> length (allLabels_of r) * length (allState_of r)"
  shows "n_removed r \<le> n_removed r'" "n_removed r' - n_removed r \<le> N"
    and "n_passes r' - n_passes r \<le> N + 1"
    and "n_evaluated r' - n_evaluated r \<le> (N + 1) * N"
proof -
  let ?r0 = "r\<lparr>compat := universal r\<rparr>"
  let ?A = "set (allLabels_of r)"
  have p: "n_removed r' + msize ?A r' = n_removed r + N"
    "n_passes r' \<le> n_passes r + (n_removed r' - n_removed r) + 1"
    "n_evaluated r' \<le> n_evaluated r + (n_passes r' - n_passes r) * N"
    "evolves ?r0 r'"
    using check_run(2)[OF assms(1)] by (simp_all add: loop_post_def msize_universal N_def)
  have "msize ?A r' \<le> msize ?A ?r0" by (rule msize_mono[OF p(4)])
  then have m: "msize ?A r' \<le> N" by (simp add: msize_universal N_def)
  show a: "n_removed r \<le> n_removed r'" using p(1) m by linarith
  show b: "n_removed r' - n_removed r \<le> N" using p(1) by linarith
  show c: "n_passes r' - n_passes r \<le> N + 1" using p(2) b by linarith
  have "n_evaluated r' - n_evaluated r \<le> (n_passes r' - n_passes r) * N" using p(3) by linarith
  also have "\<dots> \<le> (N + 1) * N" using c by (rule mult_le_mono1)
  finally show "n_evaluated r' - n_evaluated r \<le> (N + 1) * N" .
qed


subsection \<open>C4: the relation only shrinks\<close>

text \<open>
  C4. One pass of the main loop is \<open>check_labels\<close> over all labels. Whatever the relation is
  when the pass starts, the set that \<open>compat\<close> holds for a label when the pass returns is a
  subset of the one it held when the pass started, so it is never a proper superset of it:
  no pair is added back, and no key is added or dropped.
\<close>

theorem compat_only_shrinks:
  assumes "check_labels r allLabels changed = Inr (changed', r')"
  shows "cset (compat r') l \<subseteq> cset (compat r) l \<and>
         \<not> cset (compat r) l \<subset> cset (compat r') l \<and>
         dom (compat r') = dom (compat r)"
proof -
  have e: "evolves r r'" using check_labels_shrinks[OF assms] by simp
  have "cset (compat r') l \<subseteq> cset (compat r) l" by (rule evolves_cset[OF e])
  moreover have "dom (compat r') = dom (compat r)" using e by (simp add: evolves_def)
  ultimately show ?thesis by auto
qed

theorem compat_only_shrinks_witness:
  "\<exists>r'. check_labels (send_r\<lparr>compat := universal send_r\<rparr>) (allLabels_of send_r) False = Inr (True, r') \<and>
        cset (compat r') 2 \<subseteq> cset (compat (send_r\<lparr>compat := universal send_r\<rparr>)) 2 \<and>
        \<not> cset (compat (send_r\<lparr>compat := universal send_r\<rparr>)) 2 \<subset> cset (compat r') 2 \<and>
        dom (compat r') = dom (compat (send_r\<lparr>compat := universal send_r\<rparr>))"
proof -
  from send_pass obtain r' where
    p: "check_labels (send_r\<lparr>compat := universal send_r\<rparr>) (allLabels_of send_r) False = Inr (True, r')"
    by blast
  show ?thesis using p compat_only_shrinks[OF p, of 2] by blast
qed

subsection \<open>C3: termination and the number of removals\<close>

text \<open>
  C3. \<open>check_loop\<close> is a total function: its recursion is well-founded on the number of pairs
  that \<open>compat\<close> holds (the termination proof above). When \<open>check\<close> returns, the number of
  removals of the run is at most \<open>|L| * |S|\<close>, the number of passes is at most one more, and
  each set of the final relation is a subset of the set of all states it started from.
\<close>

theorem check_removals_bounded:
  assumes "check r = Inr (b, r')"
  shows "n_removed r' - n_removed r \<le> length (allLabels_of r) * length (allState_of r) \<and>
         n_passes r' - n_passes r \<le> length (allLabels_of r) * length (allState_of r) + 1 \<and>
         cset (compat r') l \<subseteq> cset (universal r) l"
proof -
  have "evolves (r\<lparr>compat := universal r\<rparr>) r'"
    using check_run(2)[OF assms] by (simp add: loop_post_def)
  from evolves_cset[OF this, of l] have "cset (compat r') l \<subseteq> cset (universal r) l" by simp
  then show ?thesis using check_counts(2,3)[OF assms] by simp
qed

theorem check_removals_bounded_witness:
  "\<exists>r'. check send_r = Inr (True, r') \<and>
        n_removed r' - n_removed send_r \<le> 3 * 2 \<and>
        n_passes r' - n_passes send_r \<le> 3 * 2 + 1 \<and>
        cset (compat r') 0 \<subseteq> cset (universal send_r) 0"
proof -
  from send_check obtain r' where c: "check send_r = Inr (True, r')" by blast
  show ?thesis using c check_removals_bounded[OF c, of 0] by (auto simp: send_sizes)
qed

subsection \<open>C5: the number of evaluations\<close>

text \<open>
  C5, as the source has it. A pass evaluates \<open>compatible\<close> once for every pair that the
  relation holds when the pass reaches the pair's label, at most \<open>|L| * |S|\<close> times, and
  there are at most \<open>|L| * |S| + 1\<close> passes: when \<open>check\<close> returns it has evaluated
  \<open>compatible\<close> at most \<open>(|L| * |S| + 1) * (|L| * |S|)\<close> times.
\<close>

theorem check_evaluations_bounded:
  assumes "check r = Inr (b, r')"
  shows "n_evaluated r' - n_evaluated r \<le>
           (length (allLabels_of r) * length (allState_of r) + 1) *
           (length (allLabels_of r) * length (allState_of r))"
  by (rule check_counts(4)[OF assms])

theorem check_evaluations_bounded_witness:
  "\<exists>r'. check send_r = Inr (True, r') \<and>
        n_evaluated r' - n_evaluated send_r \<le> (3 * 2 + 1) * (3 * 2)"
proof -
  from send_check obtain r' where c: "check send_r = Inr (True, r')" by blast
  show ?thesis using c check_evaluations_bounded[OF c] by (auto simp: send_sizes)
qed

subsection \<open>C2: the verdict is membership in the greatest closed relation\<close>

text \<open>
  A relation \<open>C\<close> is closed under \<open>compatible\<close> when, with \<open>C\<close> as \<open>self.compat\<close>,
  \<open>compatible(l, s)\<close> returns true for every label \<open>l\<close> of the program and every \<open>s\<close> in \<open>C[l]\<close>.
\<close>

definition closed_under_compatible :: "refinement \<Rightarrow> (label \<rightharpoonup> state list) \<Rightarrow> bool" where
  "closed_under_compatible r C =
     (\<forall>l\<in>set (allLabels_of r). \<forall>s\<in>cset C l. \<exists>r'. compatible (r\<lparr>compat := C\<rparr>) l s = Inr (True, r'))"

lemma compatible_val_True: "compatible_val r l s = Inr True \<longleftrightarrow> (\<exists>r'. compatible r l s = Inr (True, r'))"
proof
  assume v: "compatible_val r l s = Inr True"
  show "\<exists>r'. compatible r l s = Inr (True, r')"
  proof (cases "compatible r l s")
    case (Inl e)
    then show ?thesis using compatible_error[OF Inl] v by simp
  next
    case (Inr p)
    obtain b r' where p: "p = (b, r')" by (cases p)
    show ?thesis using compatible_result(4)[of r l s b r'] Inr p v by auto
  qed
next
  assume "\<exists>r'. compatible r l s = Inr (True, r')"
  then show "compatible_val r l s = Inr True" using compatible_result(4) by blast
qed

lemma closed_under_compatible_val:
  "closed_under_compatible r C = closed_val r (set (allLabels_of r)) C"
  by (simp add: closed_under_compatible_def closed_val_def compatible_val_True)

text \<open>
  C2. When \<open>check\<close> returns a verdict, the verdict says whether the start state of the
  projection is in the final relation at the label of the program. The final relation
  lies within the universal relation, it is closed under \<open>compatible\<close>, and every relation
  within the universal relation that is closed under \<open>compatible\<close> lies within it.
\<close>

theorem check_greatest_closed_relation:
  assumes "check r = Inr (b, r')"
  shows "b = (start_state (projection r) \<in> cset (compat r') (get_label (program r))) \<and>
         below (compat r') (universal r) \<and>
         closed_under_compatible r (compat r') \<and>
         (\<forall>C. below C (universal r) \<and> closed_under_compatible r C \<longrightarrow> below C (compat r'))"
proof -
  let ?r0 = "r\<lparr>compat := universal r\<rparr>"
  let ?A = "set (allLabels_of r)"
  note run = check_run[OF assms]
  have p: "evolves ?r0 r'" "closed_val r' ?A (compat r')"
    "\<And>C. closed_val ?r0 ?A C \<Longrightarrow> below C (compat ?r0) \<Longrightarrow> below C (compat r')"
    using run(2) by (simp_all add: loop_post_def)
  have cv: "closed_val ?r0 ?A C = closed_val r ?A C" for C
    by (simp add: closed_val_def)
  have be: "below (compat r') (universal r)"
    using p(1) by (simp add: below_def evolves_def)
  have cl: "closed_under_compatible r (compat r')"
    using p(2) closed_val_evolves[OF p(1)] cv by (simp add: closed_under_compatible_val)
  have mx: "below C (compat r')" if "below C (universal r)" "closed_under_compatible r C" for C
    using p(3)[of C] that cv by (simp add: closed_under_compatible_val)
  show ?thesis using run(4) be cl mx by blast
qed

text \<open>
  For the witness: the relation that pairs the sequence and the Send with the start state
  and the Exit with the end state is closed, so it lies within the final relation.
\<close>

definition send_rel :: "label \<rightharpoonup> state list" where
  "send_rel = [0 \<mapsto> [0], 1 \<mapsto> [0], 2 \<mapsto> [1]]"

lemma send_rel_below: "below send_rel (universal send_r)"
  by (auto simp: send_rel_def below_def cset_def send_defs eval_defs split: if_splits)

lemma send_rel_closed: "closed_under_compatible send_r send_rel"
  by (simp add: send_rel_def closed_under_compatible_def cset_def send_defs eval_defs)

theorem check_greatest_closed_relation_witness:
  "\<exists>r'. check send_r = Inr (True, r') \<and>
        True = (start_state (projection send_r) \<in> cset (compat r') (get_label (program send_r))) \<and>
        below (compat r') (universal send_r) \<and>
        closed_under_compatible send_r (compat r') \<and>
        below send_rel (compat r')"
proof -
  from send_check obtain r' where c: "check send_r = Inr (True, r')" by blast
  show ?thesis using c check_greatest_closed_relation[OF c] send_rel_below send_rel_closed by blast
qed

subsection \<open>C1: If against GuardedChoice\<close>

text \<open>
  The program \<open>if x then Exit\<close> against a projection that starts in a guarded choice with the
  one guard \<open>x\<close> leading to the end state.
\<close>

definition if_prog :: stmt where
  "if_prog = If_stmt 0 [IfComponent 1 (Sym ''x'') (Exit 2)]"

definition if_labels :: "(label \<times> stmt) list" where
  "if_labels = [(0, if_prog), (1, IfComponent 1 (Sym ''x'') (Exit 2)), (2, Exit 2)]"

definition if_proj :: projection where
  "if_proj = \<lparr> start_state = 0, mk_state_to_node = [(0, GuardedChoice [(Sym ''x'', 1)]), (1, End)] \<rparr>"

definition if_r :: refinement where
  "if_r = projr (init if_prog if_labels if_proj dis_syntactic)"

lemmas if_defs = if_r_def init_def if_prog_def if_labels_def if_proj_def dis_syntactic_def set_add_def

lemma if_init: "init if_prog if_labels if_proj dis_syntactic = Inr if_r"
  by (simp add: if_defs)

lemma if_guarded_raises:
  assumes "map_of (programLabels r) l = Some (If_stmt l' (ifComp # rest))"
    and "map_of (state_to_node r) s = Some (GuardedChoice guarded_states)"
  shows "compatible r l s = Inl NameError"
  using assms by (simp add: compatible_def lookup_def Let_def)

text \<open>
  C1 fails on the code. In the instance above the only branch \<open>(x, Exit)\<close> of the If has the
  guarded branch \<open>(x, 1)\<close> with \<open>implies(x, x)\<close> and \<open>_refines\<close> of the label of \<open>Exit\<close> at
  state 1, so the claim asks for the verdict true. The source reads \<open>mode.guarded_states\<close>:
  \<open>compatible\<close> raises NameError, and so does \<open>check\<close>.
\<close>

theorem if_guarded_choice_raises:
  "compatible (if_r\<lparr>compat := universal if_r\<rparr>) 0 0 = Inl NameError \<and>
   check if_r = Inl NameError \<and>
   (\<exists>r'. implies (if_r\<lparr>compat := universal if_r\<rparr>) (Sym ''x'') (Sym ''x'') = Inr (True, r')) \<and>
   refines (if_r\<lparr>compat := universal if_r\<rparr>) (Some 2) 1 = Inr True"
  by (simp add: if_defs eval_defs implies_def)


subsection \<open>The cases of compatible that call nextStatement\<close>



text \<open>
  Two instances: a sequence in which the node \<open>Skip 1\<close> stands twice, so that label 1 is
  followed by label 2 and by label 3; and the sequence \<open>Skip 1\<close> alone, whose label 1 has no
  successor.
\<close>

definition amb_prog :: stmt where
  "amb_prog = Statement 0 [Skip 1, Print 2, Skip 1, Exit 3]"

definition amb_labels :: "(label \<times> stmt) list" where
  "amb_labels = [(0, amb_prog), (1, Skip 1), (2, Print 2), (3, Exit 3)]"

definition end_proj :: projection where
  "end_proj = \<lparr> start_state = 0, mk_state_to_node = [(0, End)] \<rparr>"

definition amb_r :: refinement where
  "amb_r = projr (init amb_prog amb_labels end_proj dis_syntactic)"

definition skip_r :: refinement where
  "skip_r = projr (init (Statement 0 [Skip 1]) [(0, Statement 0 [Skip 1]), (1, Skip 1)] end_proj dis_syntactic)"

lemmas amb_defs = amb_r_def skip_r_def init_def amb_prog_def amb_labels_def end_proj_def
  dis_syntactic_def set_add_def

lemma amb_init: "init amb_prog amb_labels end_proj dis_syntactic = Inr amb_r"
  by (simp add: amb_defs)

subsection \<open>C7: buildCFA on a Receive\<close>

text \<open>
  The labels that \<open>buildCFA\<close> returns for a node (they do not depend on \<open>nextLabel\<close>):
  \<open>exits_children\<close> follows the loop over the children, \<open>exits_each\<close> the set comprehension.
\<close>

fun exits :: "stmt \<Rightarrow> label set"
  and exits_children :: "label set \<Rightarrow> stmt list \<Rightarrow> label set"
  and exits_each :: "stmt list \<Rightarrow> label set"
where
  "exits (Statement l children) = exits_children {l} children"
| "exits (Receive l motion actions) = exits_each actions"
| "exits (Action l mt prog) = exits prog"
| "exits (If_stmt l if_list) = exits_each if_list"
| "exits (IfComponent l c prog) = exits prog"
| "exits (While l c prog) = {l}"
| "exits (Motion_stmt l v) = {l}"
| "exits (Assign l) = {l}"
| "exits (Send l c mt) = {l}"
| "exits (Print l) = {l}"
| "exits (Skip l) = {l}"
| "exits (Exit l) = {l}"
| "exits_children lastLabel [] = lastLabel"
| "exits_children lastLabel (c # cs) = exits_children (exits c) cs"
| "exits_each [] = {}"
| "exits_each (i # rest) = exits i \<union> exits_each rest"

lemma exits_each_Union: "exits_each xs = (\<Union>x\<in>set xs. exits x)"
  by (induction xs) auto

lemma set_fold_set_add [simp]: "set (fold set_add ls acc) = set ls \<union> set acc"
  by (induction ls arbitrary: acc) auto

lemma buildCFA_exits:
  "buildCFA ls st nl = Inr (ex, nl') \<Longrightarrow> set ex = exits st"
  "buildCFA_children ls cs nl = Inr (ex, nl') \<Longrightarrow> set ex = exits_children (set ls) cs"
  "buildCFA_each ls xs acc nl = Inr (ex, nl') \<Longrightarrow> set ex = set acc \<union> exits_each xs"
proof (induction ls st nl and ls cs nl and ls xs acc nl arbitrary: ex nl' and ex nl' and ex nl'
    rule: buildCFA_buildCFA_children_buildCFA_each.induct)
  case (1 lastLabels l children nl)
  then show ?case by (auto split: sum.splits)
next
  case (2 lastLabels l motion actions nl)
  from "2.prems" obtain nl1 ls2 nl2 nl3 where c: "connect lastLabels l nl = Inr nl1"
    and m: "buildCFA [l] motion nl1 = Inr (ls2, nl2)" and c2: "connect ls2 l nl2 = Inr nl3"
    and r: "buildCFA_each [l] actions [] nl3 = Inr (ex, nl')"
    by (auto split: sum.splits)
  show ?case using "2.IH"(2)[OF c m refl c2 r] by simp
next
  case (3 lastLabels l mt prog nl)
  then show ?case by (auto split: sum.splits)
next
  case (4 lastLabels l if_list nl)
  then show ?case by (auto split: sum.splits)
next
  case (5 lastLabels l cnd prog nl)
  then show ?case by (auto split: sum.splits)
next
  case (6 lastLabels l cnd prog nl)
  then show ?case by (auto split: sum.splits)
next
  case (14 lastLabel c cs nl)
  from "14.prems" obtain l1 nl1 where b: "buildCFA lastLabel c nl = Inr (l1, nl1)"
    and r: "buildCFA_children l1 cs nl1 = Inr (ex, nl')"
    by (auto split: sum.splits)
  show ?case using "14.IH"(1)[OF b] "14.IH"(2)[OF b refl r] by simp
next
  case (16 lastLabel i rest acc nl)
  from "16.prems" obtain ls nl1 where b: "buildCFA lastLabel i nl = Inr (ls, nl1)"
    and r: "buildCFA_each lastLabel rest (fold set_add ls acc) nl1 = Inr (ex, nl')"
    by (auto split: sum.splits)
  show ?case using "16.IH"(1)[OF b] "16.IH"(2)[OF b refl r] by auto
qed (auto split: sum.splits)

text \<open>
  C7, as the source has it. On \<open>Receive(motion, actions)\<close>, \<open>buildCFA\<close> connects every incoming
  predecessor to the label of the Receive, recurses into the motion with the label of the
  Receive as the only predecessor, connects every exit label of the motion back to the label
  of the Receive, recurses into each action with the label of the Receive as the only
  predecessor, and returns the union of the exit sets of the actions. In the graph it
  leaves, every predecessor is followed by the Receive, the Receive by the motion and by
  every action, and every exit of the motion by the Receive.
\<close>

theorem buildCFA_Receive:
  assumes "buildCFA lastLabels (Receive l motion actions) nl = Inr (lastLabel, nl')"
  shows "(\<exists>nl1 ls2 nl2 nl3.
            connect lastLabels l nl = Inr nl1 \<and>
            buildCFA [l] motion nl1 = Inr (ls2, nl2) \<and>
            connect ls2 l nl2 = Inr nl3 \<and>
            buildCFA_each [l] actions [] nl3 = Inr (lastLabel, nl')) \<and>
         (\<forall>p\<in>set lastLabels. l \<in> cset nl' p) \<and>
         get_label motion \<in> cset nl' l \<and>
         (\<forall>x\<in>exits motion. l \<in> cset nl' x) \<and>
         (\<forall>a\<in>set actions. get_label a \<in> cset nl' l) \<and>
         set lastLabel = (\<Union>a\<in>set actions. exits a)"
proof -
  from assms obtain nl1 ls2 nl2 nl3 where c: "connect lastLabels l nl = Inr nl1"
    and m: "buildCFA [l] motion nl1 = Inr (ls2, nl2)" and c2: "connect ls2 l nl2 = Inr nl3"
    and r: "buildCFA_each [l] actions [] nl3 = Inr (lastLabel, nl')"
    by (auto split: sum.splits)
  have g1: "\<forall>k\<in>set lastLabels. l \<in> cset nl1 k" using connect_spec[OF c] by simp
  have g2: "grows nl1 nl2" "get_label motion \<in> cset nl2 l" using buildCFA_grows(1)[OF m] by simp_all
  have g3: "grows nl2 nl3" "\<forall>k\<in>set ls2. l \<in> cset nl3 k" using connect_spec[OF c2] by simp_all
  have g4: "grows nl3 nl'" "\<forall>x\<in>set actions. get_label x \<in> cset nl' l"
    using buildCFA_grows(3)[OF r] by simp_all
  have e2: "set ls2 = exits motion" by (rule buildCFA_exits(1)[OF m])
  have a: "\<forall>p\<in>set lastLabels. l \<in> cset nl' p"
    using g1 g2(1) g3(1) g4(1) by (blast intro: grows_cset)
  have b: "get_label motion \<in> cset nl' l"
    using g2(2) g3(1) g4(1) by (blast intro: grows_cset)
  have d: "\<forall>x\<in>exits motion. l \<in> cset nl' x"
    using g3(2) g4(1) e2 by (blast intro: grows_cset)
  have e: "set lastLabel = (\<Union>a\<in>set actions. exits a)"
    using buildCFA_exits(3)[OF r] by (simp add: exits_each_Union)
  show ?thesis using c m c2 r a b d g4(2) e by blast
qed

text \<open>
  For the witness and the counterexample: a Skip, then a Receive whose motion is the motion
  primitive \<open>m\<close> and whose one action takes the message \<open>msg\<close>, against a projection that
  moves until the message arrives.
\<close>

definition recv_prog :: stmt where
  "recv_prog = Statement 0 [Skip 7, Receive 1 (Motion_stmt 2 ''m'') [Action 3 ''msg'' (Skip 4)]]"

definition recv_labels :: "(label \<times> stmt) list" where
  "recv_labels =
     [(0, recv_prog), (7, Skip 7), (1, Receive 1 (Motion_stmt 2 ''m'') [Action 3 ''msg'' (Skip 4)]),
      (2, Motion_stmt 2 ''m''), (3, Action 3 ''msg'' (Skip 4)), (4, Skip 4)]"

definition recv_proj :: projection where
  "recv_proj = \<lparr> start_state = 0, mk_state_to_node =
     [(0, ExternalChoice [1, 2]), (1, Motion [''m''] [0]), (2, ReceiveMessage ''msg'' [3]), (3, End)] \<rparr>"

definition recv_r :: refinement where
  "recv_r = projr (init recv_prog recv_labels recv_proj dis_syntactic)"

definition recv_nl0 :: "label \<rightharpoonup> label list" where
  "recv_nl0 = [0 \<mapsto> [7], 7 \<mapsto> [], 1 \<mapsto> [], 2 \<mapsto> [], 3 \<mapsto> [], 4 \<mapsto> []]"

lemmas recv_defs = recv_r_def init_def recv_prog_def recv_labels_def recv_proj_def
  dis_syntactic_def set_add_def recv_nl0_def

lemma recv_init: "init recv_prog recv_labels recv_proj dis_syntactic = Inr recv_r"
  by (simp add: recv_defs)

lemma recv_build:
  "\<exists>nl'. buildCFA [7] (Receive 1 (Motion_stmt 2 ''m'') [Action 3 ''msg'' (Skip 4)]) recv_nl0 = Inr ([4], nl')"
  by (simp add: recv_defs)

theorem buildCFA_Receive_witness:
  "\<exists>nl'. buildCFA [7] (Receive 1 (Motion_stmt 2 ''m'') [Action 3 ''msg'' (Skip 4)]) recv_nl0 = Inr ([4], nl') \<and>
      1 \<in> cset nl' 7 \<and> 2 \<in> cset nl' 1 \<and> 1 \<in> cset nl' 2 \<and> 3 \<in> cset nl' 1 \<and>
      set [4 :: nat] = exits (Action 3 ''msg'' (Skip 4))"
proof -
  from recv_build obtain nl' where
    b: "buildCFA [7] (Receive 1 (Motion_stmt 2 ''m'') [Action 3 ''msg'' (Skip 4)]) recv_nl0 = Inr ([4], nl')"
    by blast
  show ?thesis using b buildCFA_Receive[OF b] by auto
qed

text \<open>
  C7 as stated: the motion is entered with the incoming predecessors. This is the Receive
  case written that way, to compare.
\<close>

definition buildCFA_Receive_claimed :: "label list \<Rightarrow> label \<Rightarrow> stmt \<Rightarrow> stmt list \<Rightarrow> (label \<rightharpoonup> label list) \<Rightarrow> error + (label list \<times> (label \<rightharpoonup> label list))" where
  "buildCFA_Receive_claimed lastLabels l motion actions nl =
     (case connect lastLabels l nl of Inl e \<Rightarrow> Inl e
      | Inr nl1 \<Rightarrow>
         (case buildCFA lastLabels motion nl1 of Inl e \<Rightarrow> Inl e
          | Inr (ls2, nl2) \<Rightarrow>
             (case connect ls2 l nl2 of Inl e \<Rightarrow> Inl e
              | Inr nl3 \<Rightarrow> buildCFA_each [l] actions [] nl3)))"

text \<open>
  C7 as stated fails. After the Skip with label 7, the source leaves label 7 with the
  Receive (label 1) as its only successor and makes the motion (label 2) a successor of the
  Receive; as claimed, label 7 would be followed by the motion too, and the Receive only by
  its action.
\<close>

theorem buildCFA_Receive_counterexample:
  "(case buildCFA [7] (Receive 1 (Motion_stmt 2 ''m'') [Action 3 ''msg'' (Skip 4)]) recv_nl0 of
      Inl e \<Rightarrow> None | Inr (ex, nl') \<Rightarrow> Some (nl' 7, nl' 1)) = Some (Some [1], Some [2, 3]) \<and>
   (case buildCFA_Receive_claimed [7] 1 (Motion_stmt 2 ''m'') [Action 3 ''msg'' (Skip 4)] recv_nl0 of
      Inl e \<Rightarrow> None | Inr (ex, nl') \<Rightarrow> Some (nl' 7, nl' 1)) = Some (Some [1, 2], Some [3]) \<and>
   nextLabel recv_r 7 = Some [1] \<and> nextLabel recv_r 1 = Some [2, 3]"
  by (simp add: recv_defs buildCFA_Receive_claimed_def)

subsection \<open>C9: where nextStatement is reached\<close>

fun reaches_nextStatement :: "stmt \<Rightarrow> bool" where
  "reaches_nextStatement (Motion_stmt _ _) = True"
| "reaches_nextStatement (Assign _) = True"
| "reaches_nextStatement (While _ _ _) = True"
| "reaches_nextStatement (Send _ _ _) = True"
| "reaches_nextStatement (Action _ _ _) = True"
| "reaches_nextStatement (Print _) = True"
| "reaches_nextStatement (Skip _) = True"
| "reaches_nextStatement (Statement _ _) = True"
| "reaches_nextStatement (Receive _ _ _) = False"
| "reaches_nextStatement (If_stmt _ _) = False"
| "reaches_nextStatement (IfComponent _ _ _) = False"
| "reaches_nextStatement (Exit _) = False"

lemma lookup_err: "lookup d k = Inl e \<Longrightarrow> e = KeyError"
  by (simp add: lookup_def split: option.splits)

lemma index0_err: "index0 xs = Inl e \<Longrightarrow> e = IndexError"
  by (simp add: index0_def split: list.splits)

lemma refines_err: "refines r lab t = Inl e \<Longrightarrow> e = KeyError"
  by (cases lab) (auto simp: refines_Some refines_None bindE_eq_Inl dest: lookup_err split: if_splits)

lemma any_refines_err: "any_refines r xs n = Inl e \<Longrightarrow> e = KeyError"
  by (induction xs) (auto simp: bindE_eq_Inl dest: refines_err split: if_splits)

lemma findOne_err: "findOne r m acts n = Inl e \<Longrightarrow> e = KeyError"
  by (auto simp: findOne_def bindE_eq_Inl dest: refines_err any_refines_err split: if_splits)

lemma all_findOne_err: "all_findOne r m acts ns = Inl e \<Longrightarrow> e = KeyError"
  by (induction ns) (auto simp: bindE_eq_Inl dest: findOne_err split: if_splits)

lemma trivial_cases_err: "trivial_cases xs = Inl e \<Longrightarrow> e = AttributeError"
proof (induction xs)
  case Nil
  then show ?case by simp
next
  case (Cons x xs)
  have c: "condition_of x = Inl e \<Longrightarrow> e = AttributeError" by (cases x) auto
  have p: "program_of x = Inl e \<Longrightarrow> e = AttributeError" by (cases x) auto
  show ?case using Cons c p by (auto simp: bindE_eq_Inl split: if_splits)
qed

lemma if_guarded_err: "if_guarded r xs = Inl e \<Longrightarrow> e = NameError"
  by (cases xs) auto

lemma eff_err: "eff r c g = Inl e \<Longrightarrow> e = OracleFailure"
  by (auto simp: eff_def split: option.splits)

lemma any_guard_val_err:
  "any_guard_val r c tgt gss = Inl e \<Longrightarrow> e = OracleFailure \<or> e = KeyError \<or> tgt = Inl e"
proof (induction gss)
  case Nil
  then show ?case by simp
next
  case (Cons gt gss)
  obtain g t where gt: "gt = (g, t)" by (cases gt)
  show ?case using Cons
    by (cases tgt) (auto simp: gt bindE_eq_Inl dest: eff_err refines_err split: if_splits)
qed

lemma while_guarded_val_err:
  "while_guarded_val r l c prog gss = Inl e \<Longrightarrow>
     e = OracleFailure \<or> e = KeyError \<or> nextStatement r l = Inl e"
  by (auto simp: while_guarded_val_def bindE_eq_Inl dest: any_guard_val_err split: if_splits)

lemma compatible_val_ambiguous:
  assumes "compatible_val r l s = Inl AmbiguousSuccessors"
  shows "\<exists>statment. map_of (programLabels r) l = Some statment \<and> reaches_nextStatement statment \<and>
           nextStatement r l = Inl AmbiguousSuccessors"
proof -
  from assms obtain statment node where st: "map_of (programLabels r) l = Some statment"
    and nd: "map_of (state_to_node r) s = Some node"
    by (auto simp: compatible_val_def lookup_def bindE_eq_Inl split: option.splits)
  have "reaches_nextStatement statment \<and> nextStatement r l = Inl AmbiguousSuccessors"
    using assms st nd
    by (cases statment; cases node)
       (auto simp: compatible_val_def lookup_def bindE_eq_Inl
             dest: refines_err any_refines_err all_findOne_err trivial_cases_err if_guarded_err
                   index0_err while_guarded_val_err
             split: if_splits)
  then show ?thesis using st by blast
qed


lemma verdict_val: "map_sum id fst (compatible r l s) = compatible_val r l s"
proof (cases "compatible r l s")
  case (Inl e)
  then show ?thesis using compatible_error[OF Inl] by simp
next
  case (Inr p)
  obtain b r' where p: "p = (b, r')" by (cases p)
  show ?thesis using compatible_result(4)[of r l s b r'] Inr p by simp
qed

lemma any_refines_cong: "refines r2 = refines r \<Longrightarrow> any_refines r2 xs n = any_refines r xs n"
  by (induction xs) (simp_all cong: if_cong)

lemma all_findOne_cong:
  assumes "refines r2 = refines r"
  shows "all_findOne r2 m acts ns = all_findOne r m acts ns"
proof -
  have f: "findOne r2 m acts n = findOne r m acts n" for n
    using assms any_refines_cong[OF assms] by (simp add: findOne_def cong: if_cong)
  show ?thesis by (induction ns) (simp_all add: f cong: if_cong)
qed

lemma refines_nextLabel: "refines (r\<lparr>nextLabel := nl\<rparr>) = refines r"
  by (simp add: refines_def fun_eq_iff split: option.splits)

lemma compatible_val_nextLabel:
  assumes "map_of (programLabels r) l = Some statment" and "\<not> reaches_nextStatement statment"
  shows "compatible_val (r\<lparr>nextLabel := nl\<rparr>) l s = compatible_val r l s"
proof (cases "map_of (state_to_node r) s")
  case None
  then show ?thesis using assms(1) by (simp add: compatible_val_def lookup_def)
next
  case (Some node)
  note c = refines_nextLabel[of nl r] any_refines_cong[OF refines_nextLabel[of nl r]]
    all_findOne_cong[OF refines_nextLabel[of nl r]] if_guarded_view[of "r\<lparr>nextLabel := nl\<rparr>" r]
  show ?thesis
    using assms Some
    by (cases statment; cases node) (simp_all add: compatible_val_def lookup_def c)
qed

lemma check_states_error:
  "check_states r l ss ch = Inl e \<Longrightarrow>
     e = KeyError \<or> (\<exists>ra s. evolves r ra \<and> compatible ra l s = Inl e)"
proof (induction ss arbitrary: r ch)
  case Nil
  then show ?case by simp
next
  case (Cons s ss)
  show ?case
  proof (cases "compatible r l s")
    case (Inl e')
    then have "compatible r l s = Inl e" using Cons.prems by simp
    then show ?thesis using evolves_refl by blast
  next
    case (Inr p)
    obtain b r1 where c: "compatible r l s = Inr (b, r1)" using Inr by (cases p) auto
    note ev = compatible_evolves(1)[OF c]
    show ?thesis
    proof (cases b)
      case True
      then have "check_states r1 l ss ch = Inl e" using Cons.prems c by simp
      from Cons.IH[OF this] show ?thesis using evolves_trans[OF ev] by blast
    next
      case False
      show ?thesis
      proof (cases "compat r1 l")
        case None
        then show ?thesis using Cons.prems c False by simp
      next
        case (Some cur)
        let ?r2 = "r1\<lparr>trace := trace r1 @ [NotCompatible l s],
                       compat := (compat r1)(l \<mapsto> removeAll s cur)\<rparr>"
        have "check_states ?r2 l ss True = Inl e" using Cons.prems c False Some by simp
        from Cons.IH[OF this] show ?thesis
          using evolves_trans[OF ev evolves_trans[OF discard_evolves[OF Some]]] by blast
      qed
    qed
  qed
qed

lemma check_labels_error:
  "check_labels r ls ch = Inl e \<Longrightarrow>
     e = KeyError \<or> (\<exists>ra l s. evolves r ra \<and> l \<in> set ls \<and> compatible ra l s = Inl e)"
proof (induction ls arbitrary: r ch)
  case Nil
  then show ?case by simp
next
  case (Cons l ls)
  show ?case
  proof (cases "compat r l")
    case None
    then show ?thesis using Cons.prems by simp
  next
    case (Some cur)
    show ?thesis
    proof (cases "check_states r l (remdups cur) ch")
      case (Inl e')
      then have "check_states r l (remdups cur) ch = Inl e" using Cons.prems Some by simp
      from check_states_error[OF this] show ?thesis by auto
    next
      case (Inr p)
      obtain ch1 r1 where st: "check_states r l (remdups cur) ch = Inr (ch1, r1)"
        using Inr by (cases p) auto
      have e1: "evolves r r1"
        using check_states_spec[OF st] Some by (simp add: inner_post_def cset_def)
      have "check_labels r1 ls ch1 = Inl e" using Cons.prems Some st by simp
      from Cons.IH[OF this] show ?thesis using evolves_trans[OF e1] by auto
    qed
  qed
qed

lemma check_loop_error:
  "check_loop ls r = Inl e \<Longrightarrow>
     e = KeyError \<or> (\<exists>ra l s. evolves r ra \<and> l \<in> set ls \<and> compatible ra l s = Inl e)"
proof (induction ls r rule: check_loop.induct)
  case (1 ls r)
  let ?r0 = "r\<lparr>trace := trace r @ [CurrentRefinement]\<rparr>"
  have e0: "evolves r ?r0" by (rule evolves_add_trace)
  show ?case
  proof (cases "check_labels ?r0 ls False")
    case (Inl e')
    then have "check_labels ?r0 ls False = Inl e"
      using "1.prems" by (subst (asm) check_loop.simps) simp
    from check_labels_error[OF this] show ?thesis using evolves_trans[OF e0] by blast
  next
    case (Inr p)
    obtain ch r1 where run: "check_labels ?r0 ls False = Inr (ch, r1)" using Inr by (cases p) auto
    have e1: "evolves r r1"
      using check_labels_shrinks[OF run] evolves_trans[OF e0] by blast
    have ch: ch and rec: "check_loop ls r1 = Inl e"
      using "1.prems" run by (subst (asm) check_loop.simps, simp split: if_splits)+
    from "1.IH"[OF run refl ch rec] show ?thesis using evolves_trans[OF e1] by blast
  qed
qed

lemma check_error:
  assumes "check r = Inl e"
  shows "e = KeyError \<or>
         (\<exists>ra l s. evolves (r\<lparr>compat := universal r\<rparr>) ra \<and> l \<in> set (allLabels_of r) \<and>
            compatible ra l s = Inl e)"
proof (cases "check_loop (allLabels_of r) (r\<lparr>compat := universal r\<rparr>)")
  case (Inl e')
  then have "check_loop (allLabels_of r) (r\<lparr>compat := universal r\<rparr>) = Inl e"
    using assms by (simp add: check_def)
  from check_loop_error[OF this] show ?thesis .
next
  case (Inr r1)
  then show ?thesis using assms by (auto simp: check_def split: option.splits)
qed

lemma receive_successors:
  assumes "buildCFA lastLabels (Receive l motion actions) nl = Inr (ex, nl')"
  shows "get_label motion \<in> cset nl' l" and "\<forall>a\<in>set actions. get_label a \<in> cset nl' l"
proof -
  from assms obtain nl1 ls2 nl2 nl3 where c: "connect lastLabels l nl = Inr nl1"
    and m: "buildCFA [l] motion nl1 = Inr (ls2, nl2)" and c2: "connect ls2 l nl2 = Inr nl3"
    and r: "buildCFA_each [l] actions [] nl3 = Inr (ex, nl')"
    by (auto split: sum.splits)
  have g2: "get_label motion \<in> cset nl2 l" using buildCFA_grows(1)[OF m] by simp
  have g3: "grows nl2 nl3" using connect_spec[OF c2] by simp
  have g4: "grows nl3 nl'" "\<forall>x\<in>set actions. get_label x \<in> cset nl' l"
    using buildCFA_grows(3)[OF r] by simp_all
  show "get_label motion \<in> cset nl' l" using g2 g3 g4(1) by (blast intro: grows_cset)
  show "\<forall>a\<in>set actions. get_label a \<in> cset nl' l" by (rule g4(2))
qed

text \<open>
  C9. If \<open>compatible\<close> raises the ambiguous-successor error, the node at its label is a
  Motion, Assign, While, Send, Action, Print, Skip or sequence node, and it is
  \<open>nextStatement\<close> on that label that raised; the same holds for the label at which \<open>check\<close>
  fails with this error. For a Receive, an If (and an IfComponent or Exit) the verdict of
  \<open>compatible\<close> does not depend on \<open>nextLabel\<close> at all. And \<open>buildCFA\<close> does record the motion
  and every action as successors of the label of a Receive.
\<close>

theorem nextStatement_not_reached_at_branches:
  "(compatible r l s = Inl AmbiguousSuccessors \<longrightarrow>
      (\<exists>statment. map_of (programLabels r) l = Some statment \<and> reaches_nextStatement statment \<and>
         nextStatement r l = Inl AmbiguousSuccessors)) \<and>
   (check r = Inl AmbiguousSuccessors \<longrightarrow>
      (\<exists>k statment. map_of (programLabels r) k = Some statment \<and> reaches_nextStatement statment \<and>
         nextStatement r k = Inl AmbiguousSuccessors)) \<and>
   (map_of (programLabels r) l = Some statment \<and> \<not> reaches_nextStatement statment \<longrightarrow>
      map_sum id fst (compatible (r\<lparr>nextLabel := nl\<rparr>) l s) = map_sum id fst (compatible r l s) \<and>
      compatible r l s \<noteq> Inl AmbiguousSuccessors) \<and>
   (buildCFA lastLabels (Receive l' motion actions) nl0 = Inr (ex, nl') \<longrightarrow>
      get_label motion \<in> cset nl' l' \<and> (\<forall>a\<in>set actions. get_label a \<in> cset nl' l'))"
proof (intro conjI impI)
  assume "compatible r l s = Inl AmbiguousSuccessors"
  then show "\<exists>statment. map_of (programLabels r) l = Some statment \<and> reaches_nextStatement statment \<and>
         nextStatement r l = Inl AmbiguousSuccessors"
    using compatible_val_ambiguous compatible_error by blast
next
  assume "check r = Inl AmbiguousSuccessors"
  from check_error[OF this] obtain ra k s' where
    ra: "evolves (r\<lparr>compat := universal r\<rparr>) ra" "compatible ra k s' = Inl AmbiguousSuccessors"
    by auto
  from compatible_val_ambiguous[OF compatible_error[OF ra(2)]] obtain statment where
    st: "map_of (programLabels ra) k = Some statment" "reaches_nextStatement statment"
      "nextStatement ra k = Inl AmbiguousSuccessors"
    by blast
  have "programLabels ra = programLabels r" "nextLabel ra = nextLabel r"
    using evolves_static[OF ra(1)] by simp_all
  then show "\<exists>k statment. map_of (programLabels r) k = Some statment \<and> reaches_nextStatement statment \<and>
         nextStatement r k = Inl AmbiguousSuccessors"
    using st by (auto simp: nextStatement_def)
next
  assume a: "map_of (programLabels r) l = Some statment \<and> \<not> reaches_nextStatement statment"
  have "map_of (programLabels (r\<lparr>nextLabel := nl\<rparr>)) l = Some statment" using a by simp
  then show "map_sum id fst (compatible (r\<lparr>nextLabel := nl\<rparr>) l s) = map_sum id fst (compatible r l s)"
    using a compatible_val_nextLabel[of r l statment nl s] by (simp add: verdict_val)
  show "compatible r l s \<noteq> Inl AmbiguousSuccessors"
    using a compatible_val_ambiguous[OF compatible_error, of r l s] by auto
next
  assume b: "buildCFA lastLabels (Receive l' motion actions) nl0 = Inr (ex, nl')"
  show "get_label motion \<in> cset nl' l'" by (rule receive_successors(1)[OF b])
  show "\<forall>a\<in>set actions. get_label a \<in> cset nl' l'" by (rule receive_successors(2)[OF b])
qed

lemma recv_check: "\<exists>r'. check recv_r = Inr (True, r')"
  by (simp add: recv_defs eval_defs findOne_def)

lemma amb_check: "check amb_r = Inl AmbiguousSuccessors" "compatible amb_r 1 0 = Inl AmbiguousSuccessors"
  by (simp_all add: amb_defs eval_defs)


theorem nextStatement_not_reached_at_branches_witness:
  "compatible amb_r 1 0 = Inl AmbiguousSuccessors \<and>
   (\<exists>statment. map_of (programLabels amb_r) 1 = Some statment \<and> reaches_nextStatement statment \<and>
      nextStatement amb_r 1 = Inl AmbiguousSuccessors) \<and>
   check amb_r = Inl AmbiguousSuccessors \<and>
   (\<exists>k statment. map_of (programLabels amb_r) k = Some statment \<and> reaches_nextStatement statment \<and>
      nextStatement amb_r k = Inl AmbiguousSuccessors) \<and>
   map_of (programLabels recv_r) 1 = Some (Receive 1 (Motion_stmt 2 ''m'') [Action 3 ''msg'' (Skip 4)]) \<and>
   \<not> reaches_nextStatement (Receive 1 (Motion_stmt 2 ''m'') [Action 3 ''msg'' (Skip 4)]) \<and>
   nextLabel recv_r 1 = Some [2, 3] \<and>
   map_sum id fst (compatible (recv_r\<lparr>nextLabel := Map.empty\<rparr>) 1 0) = map_sum id fst (compatible recv_r 1 0) \<and>
   compatible recv_r 1 0 \<noteq> Inl AmbiguousSuccessors \<and>
   (\<exists>r'. check recv_r = Inr (True, r')) \<and>
   (\<exists>nl'. buildCFA [7] (Receive 1 (Motion_stmt 2 ''m'') [Action 3 ''msg'' (Skip 4)]) recv_nl0 = Inr ([4], nl') \<and>
      2 \<in> cset nl' 1 \<and> 3 \<in> cset nl' 1)"
proof -
  have p: "map_of (programLabels recv_r) 1 = Some (Receive 1 (Motion_stmt 2 ''m'') [Action 3 ''msg'' (Skip 4)])"
    "nextLabel recv_r 1 = Some [2, 3]"
    by (simp_all add: recv_defs)
  from recv_build obtain nl' where
    b: "buildCFA [7] (Receive 1 (Motion_stmt 2 ''m'') [Action 3 ''msg'' (Skip 4)]) recv_nl0 = Inr ([4], nl')"
    by blast
  note t1 = nextStatement_not_reached_at_branches[of amb_r 1 0]
  note t2 = nextStatement_not_reached_at_branches[of recv_r 1 0
      "Receive 1 (Motion_stmt 2 ''m'') [Action 3 ''msg'' (Skip 4)]" Map.empty
      "[7]" 1 "Motion_stmt 2 ''m''" "[Action 3 ''msg'' (Skip 4)]" recv_nl0 "[4]" nl']
  have a1: "\<exists>statment. map_of (programLabels amb_r) 1 = Some statment \<and> reaches_nextStatement statment \<and>
      nextStatement amb_r 1 = Inl AmbiguousSuccessors"
    using t1 amb_check(2) by blast
  have a2: "\<exists>k statment. map_of (programLabels amb_r) k = Some statment \<and> reaches_nextStatement statment \<and>
      nextStatement amb_r k = Inl AmbiguousSuccessors"
    using t1 amb_check(1) by blast
  have a3: "map_sum id fst (compatible (recv_r\<lparr>nextLabel := Map.empty\<rparr>) 1 0) = map_sum id fst (compatible recv_r 1 0)"
    "compatible recv_r 1 0 \<noteq> Inl AmbiguousSuccessors"
    using t2 p(1) by simp_all
  have a4: "2 \<in> cset nl' 1 \<and> 3 \<in> cset nl' 1" using t2 b by simp
  have a5: "\<not> reaches_nextStatement (Receive 1 (Motion_stmt 2 ''m'') [Action 3 ''msg'' (Skip 4)])"
    by simp
  have a6: "\<exists>nl'. buildCFA [7] (Receive 1 (Motion_stmt 2 ''m'') [Action 3 ''msg'' (Skip 4)]) recv_nl0 = Inr ([4], nl') \<and>
      2 \<in> cset nl' 1 \<and> 3 \<in> cset nl' 1"
    using b a4 by blast
  show ?thesis
    by (intro conjI) (rule amb_check(2) a1 amb_check(1) a2 p(1) a5 p(2) a3(1) a3(2) recv_check a6)+
qed

subsection \<open>C10: calling check twice\<close>

text \<open>
  \<open>sim r r2\<close>: the two instances differ at most in their caches and traces, and answer
  implications alike. \<open>sim_res\<close> and \<open>sim_loop\<close> lift this to results.
\<close>

definition sim :: "refinement \<Rightarrow> refinement \<Rightarrow> bool" where
  "sim r r2 = (static r2 = static r \<and> eff r2 = eff r \<and> compat r2 = compat r)"

definition sim_res :: "error + (bool \<times> refinement) \<Rightarrow> error + (bool \<times> refinement) \<Rightarrow> bool" where
  "sim_res m m2 =
     (case m of Inl e \<Rightarrow> m2 = Inl e
      | Inr (b, r') \<Rightarrow> (\<exists>r2'. m2 = Inr (b, r2') \<and> sim r' r2'))"

definition sim_loop :: "error + refinement \<Rightarrow> error + refinement \<Rightarrow> bool" where
  "sim_loop m m2 =
     (case m of Inl e \<Rightarrow> m2 = Inl e
      | Inr r' \<Rightarrow> (\<exists>r2'. m2 = Inr r2' \<and> sim r' r2'))"

lemma sim_same_view: "sim r r2 \<Longrightarrow> same_view r r2"
  by (simp add: sim_def same_view_def static_def)

lemma sim_after_compatible:
  assumes "sim r r2" and "compatible r l s = Inr (b, r')" and "compatible r2 l s = Inr (b2, r2')"
  shows "sim r' r2'"
proof -
  note e1 = compatible_evolves[OF assms(2)] and e2 = compatible_evolves[OF assms(3)]
  have "static r' = static r" "static r2' = static r2" "eff r' = eff r" "eff r2' = eff r2"
    using e1(1) e2(1) by (simp_all add: evolves_def)
  then show ?thesis using assms(1) e1(2) e2(2) by (simp add: sim_def)
qed

lemma compatible_sim:
  assumes "sim r r2"
  shows "sim_res (compatible r l s) (compatible r2 l s)"
proof -
  have v: "compatible_val r2 l s = compatible_val r l s"
    by (rule compatible_val_view[OF sim_same_view[OF assms]])
  show ?thesis
  proof (cases "compatible r l s")
    case (Inl e)
    have "compatible_val r2 l s = Inl e" using compatible_error[OF Inl] v by simp
    then have "compatible r2 l s = Inl e"
      using verdict_val[of r2 l s] by (cases "compatible r2 l s") auto
    then show ?thesis using Inl by (simp add: sim_res_def)
  next
    case (Inr p)
    obtain b r' where c: "compatible r l s = Inr (b, r')" using Inr by (cases p) auto
    have "compatible_val r2 l s = Inr b" using compatible_result(4)[OF c] v by simp
    then obtain r2' where c2: "compatible r2 l s = Inr (b, r2')"
      using verdict_val[of r2 l s] by (cases "compatible r2 l s") auto
    show ?thesis using c c2 sim_after_compatible[OF assms c c2] by (simp add: sim_res_def)
  qed
qed

lemma sim_discard:
  assumes "sim r1 r2"
  shows "sim (r1\<lparr>trace := t1, compat := (compat r1)(l \<mapsto> xs)\<rparr>)
             (r2\<lparr>trace := t2, compat := (compat r2)(l \<mapsto> xs)\<rparr>)"
  using assms by (simp add: sim_def static_def)

lemma check_states_sim:
  "sim r r2 \<Longrightarrow> sim_res (check_states r l ss ch) (check_states r2 l ss ch)"
proof (induction ss arbitrary: r r2 ch)
  case Nil
  then show ?case by (simp add: sim_res_def)
next
  case (Cons s ss)
  note cs = compatible_sim[OF Cons.prems, of l s]
  show ?case
  proof (cases "compatible r l s")
    case (Inl e)
    then show ?thesis using cs by (simp add: sim_res_def)
  next
    case (Inr p)
    obtain b r1 where c: "compatible r l s = Inr (b, r1)" using Inr by (cases p) auto
    from cs c obtain r1' where c2: "compatible r2 l s = Inr (b, r1')" and s1: "sim r1 r1'"
      by (auto simp: sim_res_def)
    show ?thesis
    proof (cases b)
      case True
      then show ?thesis using c c2 Cons.IH[OF s1] by simp
    next
      case False
      have eq: "compat r1' = compat r1" using s1 by (simp add: sim_def)
      show ?thesis
      proof (cases "compat r1 l")
        case None
        then show ?thesis using c c2 False eq by (simp add: sim_res_def)
      next
        case (Some cur)
        have "sim (r1\<lparr>trace := trace r1 @ [NotCompatible l s], compat := (compat r1)(l \<mapsto> removeAll s cur)\<rparr>)
                  (r1'\<lparr>trace := trace r1' @ [NotCompatible l s], compat := (compat r1')(l \<mapsto> removeAll s cur)\<rparr>)"
          by (rule sim_discard[OF s1])
        from Cons.IH[OF this] show ?thesis using c c2 False Some eq by simp
      qed
    qed
  qed
qed

lemma check_labels_sim:
  "sim r r2 \<Longrightarrow> sim_res (check_labels r ls ch) (check_labels r2 ls ch)"
proof (induction ls arbitrary: r r2 ch)
  case Nil
  then show ?case by (simp add: sim_res_def)
next
  case (Cons l ls)
  have eq: "compat r2 = compat r" using Cons.prems by (simp add: sim_def)
  show ?case
  proof (cases "compat r l")
    case None
    then show ?thesis using eq by (simp add: sim_res_def)
  next
    case (Some cur)
    note st = check_states_sim[OF Cons.prems, of l "remdups cur" ch]
    show ?thesis
    proof (cases "check_states r l (remdups cur) ch")
      case (Inl e)
      then show ?thesis using st Some eq by (simp add: sim_res_def)
    next
      case (Inr p)
      obtain ch1 r1 where c: "check_states r l (remdups cur) ch = Inr (ch1, r1)"
        using Inr by (cases p) auto
      from st c obtain r1' where c2: "check_states r2 l (remdups cur) ch = Inr (ch1, r1')"
        and s1: "sim r1 r1'"
        by (auto simp: sim_res_def)
      show ?thesis using Cons.IH[OF s1] c c2 Some eq by simp
    qed
  qed
qed

lemma sim_add_trace: "sim r r2 \<Longrightarrow> sim (r\<lparr>trace := t1\<rparr>) (r2\<lparr>trace := t2\<rparr>)"
  by (simp add: sim_def static_def)

lemma check_loop_sim:
  "sim r r2 \<Longrightarrow> sim_loop (check_loop ls r) (check_loop ls r2)"
proof (induction ls r arbitrary: r2 rule: check_loop.induct)
  case (1 ls r)
  let ?r0 = "r\<lparr>trace := trace r @ [CurrentRefinement]\<rparr>"
  let ?r0' = "r2\<lparr>trace := trace r2 @ [CurrentRefinement]\<rparr>"
  have p: "sim_res (check_labels ?r0 ls False) (check_labels ?r0' ls False)"
    by (rule check_labels_sim[OF sim_add_trace[OF "1.prems"]])
  show ?case
  proof (cases "check_labels ?r0 ls False")
    case (Inl e)
    then have "check_labels ?r0' ls False = Inl e" using p by (simp add: sim_res_def)
    then show ?thesis using Inl
      by (subst check_loop.simps, subst (2) check_loop.simps) (simp add: sim_loop_def)
  next
    case (Inr q)
    obtain ch r1 where c: "check_labels ?r0 ls False = Inr (ch, r1)" using Inr by (cases q) auto
    from p c obtain r1' where c2: "check_labels ?r0' ls False = Inr (ch, r1')" and s1: "sim r1 r1'"
      by (auto simp: sim_res_def)
    show ?thesis
    proof (cases ch)
      case True
      have "sim_loop (check_loop ls r1) (check_loop ls r1')"
        by (rule "1.IH"[OF c refl True s1])
      then show ?thesis using c c2 True
        by (subst check_loop.simps, subst (2) check_loop.simps) simp
    next
      case False
      then show ?thesis using c c2 s1
        by (subst check_loop.simps, subst (2) check_loop.simps) (simp add: sim_loop_def)
    qed
  qed
qed

lemma check_compat_reset: "check (r\<lparr>compat := C\<rparr>) = check r"
proof -
  have a: "allLabels_of (r\<lparr>compat := C\<rparr>) = allLabels_of r"
    "allState_of (r\<lparr>compat := C\<rparr>) = allState_of r"
    by (simp_all add: allLabels_of_def allState_of_def)
  have "universal (r\<lparr>compat := C\<rparr>) = universal r"
    unfolding universal_def a by (rule refl)
  then show ?thesis using a(1) by (simp add: check_def del: check_loop.simps)
qed

lemma init_cache_empty: "init prog labels proj dis = Inr r \<Longrightarrow> cachedImplication r = Map.empty"
  by (auto simp: init_def split: sum.splits)

lemma check_again:
  assumes "check r = Inr (b, r')"
  shows "\<exists>r''. check r' = Inr (b, r'') \<and> cachedImplication r' \<subseteq>\<^sub>m cachedImplication r''"
    and "cachedImplication r \<subseteq>\<^sub>m cachedImplication r'"
proof -
  let ?r0 = "r\<lparr>compat := universal r\<rparr>"
  note run = check_run[OF assms]
  have ev: "evolves ?r0 r'" using run(2) by (simp add: loop_post_def)
  have st: "static r' = static r" "eff r' = eff r"
    using ev by (simp_all add: evolves_def static_def)
  have al0: "allLabels_of r' = allLabels_of r" "allState_of r' = allState_of r"
    using st(1) by (simp_all add: allLabels_of_def allState_of_def static_def)
  have al: "allLabels_of r' = allLabels_of r" "universal r' = universal r"
    unfolding universal_def al0 by (rule refl)+
  show c1: "cachedImplication r \<subseteq>\<^sub>m cachedImplication r'" using ev by (simp add: evolves_def)
  have s0: "sim ?r0 (r'\<lparr>compat := universal r\<rparr>)"
    using st by (simp add: sim_def static_def)
  from check_loop_sim[OF s0, of "allLabels_of r"] run(1)
  obtain r'' where l2: "check_loop (allLabels_of r) (r'\<lparr>compat := universal r\<rparr>) = Inr r''"
    and s2: "sim r' r''"
    by (auto simp: sim_loop_def)
  have f: "compat r'' = compat r'" "program r'' = program r'" "projection r'' = projection r'"
    using s2 by (simp_all add: sim_def static_def)
  have pr: "program r' = program r" "projection r' = projection r"
    using st(1) by (simp_all add: static_def)
  obtain ss where ss: "compat r' (get_label (program r)) = Some ss" using run(3) by auto
  have b: "b = (start_state (projection r) \<in> set ss)" using run(4) ss by (simp add: cset_def)
  have c2: "check r' = Inr (b, r'')"
    using l2 ss b f pr by (simp add: check_def al del: check_loop.simps)
  have "cachedImplication r' \<subseteq>\<^sub>m cachedImplication r''"
    using check_run(2)[OF c2] by (simp add: loop_post_def evolves_def)
  then show "\<exists>r''. check r' = Inr (b, r'') \<and> cachedImplication r' \<subseteq>\<^sub>m cachedImplication r''"
    using c2 by blast
qed


text \<open>
  C10. \<open>check\<close> assigns the universal relation to \<open>compat\<close> before it iterates, so its result
  does not depend on what \<open>compat\<close> held. When a call returns the verdict \<open>b\<close> and leaves the
  instance \<open>r'\<close>, the next call, on \<open>r'\<close>, returns \<open>b\<close> again. The cache starts empty in the
  constructor; each call leaves a cache that extends the one it found, entry for entry.
\<close>

theorem check_twice_same_verdict:
  "(check r = Inr (b, r') \<longrightarrow>
      (\<exists>r''. check r' = Inr (b, r'') \<and> cachedImplication r' \<subseteq>\<^sub>m cachedImplication r'') \<and>
      cachedImplication r \<subseteq>\<^sub>m cachedImplication r') \<and>
   check (r\<lparr>compat := C\<rparr>) = check r \<and>
   (init prog labels proj dis = Inr r0 \<longrightarrow> cachedImplication r0 = Map.empty)"
proof (intro conjI impI)
  assume c: "check r = Inr (b, r')"
  show "\<exists>r''. check r' = Inr (b, r'') \<and> cachedImplication r' \<subseteq>\<^sub>m cachedImplication r''"
    by (rule check_again(1)[OF c])
  show "cachedImplication r \<subseteq>\<^sub>m cachedImplication r'" by (rule check_again(2)[OF c])
next
  show "check (r\<lparr>compat := C\<rparr>) = check r" by (rule check_compat_reset)
next
  assume "init prog labels proj dis = Inr r0"
  then show "cachedImplication r0 = Map.empty" by (rule init_cache_empty)
qed

text \<open>
  For the witness: a loop \<open>while x: skip\<close> followed by \<open>Exit\<close>, against a guarded choice that
  stays under the guard \<open>x\<close> and ends under \<open>\<not> x\<close>. The check asks the decision procedure
  and caches its answers.
\<close>

definition loop_prog :: stmt where
  "loop_prog = Statement 0 [While 1 (Sym ''x'') (Skip 2), Exit 3]"

definition loop_labels :: "(label \<times> stmt) list" where
  "loop_labels = [(0, loop_prog), (1, While 1 (Sym ''x'') (Skip 2)), (2, Skip 2), (3, Exit 3)]"

definition loop_proj :: projection where
  "loop_proj = \<lparr> start_state = 0, mk_state_to_node =
     [(0, GuardedChoice [(Sym ''x'', 0), (Not_cond (Sym ''x''), 1)]), (1, End)] \<rparr>"

definition loop_r :: refinement where
  "loop_r = projr (init loop_prog loop_labels loop_proj dis_syntactic)"

lemmas loop_defs = loop_r_def init_def loop_prog_def loop_labels_def loop_proj_def
  dis_syntactic_def set_add_def

lemma loop_init: "init loop_prog loop_labels loop_proj dis_syntactic = Inr loop_r"
  by (simp add: loop_defs)

lemma loop_check:
  "\<exists>r'. check loop_r = Inr (True, r') \<and>
        cachedImplication r' (Sym ''x'', Sym ''x'') = Some True \<and>
        cachedImplication r' (Not_cond (Sym ''x''), Sym ''x'') = Some False"
  by (simp add: loop_defs eval_defs while_guarded_def implies_def)

theorem check_twice_same_verdict_witness:
  "\<exists>r' r''. check loop_r = Inr (True, r') \<and> check r' = Inr (True, r'') \<and>
      cachedImplication r' \<subseteq>\<^sub>m cachedImplication r'' \<and>
      cachedImplication loop_r \<subseteq>\<^sub>m cachedImplication r' \<and>
      cachedImplication r' (Sym ''x'', Sym ''x'') = Some True \<and>
      cachedImplication r'' (Sym ''x'', Sym ''x'') = Some True \<and>
      check (loop_r\<lparr>compat := Map.empty\<rparr>) = check loop_r \<and>
      init loop_prog loop_labels loop_proj dis_syntactic = Inr loop_r \<and>
      cachedImplication loop_r = Map.empty"
proof -
  from loop_check obtain r' where c: "check loop_r = Inr (True, r')"
    and k: "cachedImplication r' (Sym ''x'', Sym ''x'') = Some True"
    by blast
  note t = check_twice_same_verdict[where r=loop_r and b=True and r'=r' and C=Map.empty
      and prog=loop_prog and labels=loop_labels and proj=loop_proj and dis=dis_syntactic
      and ?r0.0=loop_r]
  from t c obtain r'' where c2: "check r' = Inr (True, r'')"
    and m: "cachedImplication r' \<subseteq>\<^sub>m cachedImplication r''"
    by blast
  have k2: "cachedImplication r'' (Sym ''x'', Sym ''x'') = Some True"
    using m k by (metis domI map_le_def)
  have a: "cachedImplication loop_r \<subseteq>\<^sub>m cachedImplication r'" using t c by blast
  have b: "check (loop_r\<lparr>compat := Map.empty\<rparr>) = check loop_r" using t by blast
  have d: "cachedImplication loop_r = Map.empty" using t loop_init by blast
  show ?thesis using c c2 m a k k2 b loop_init d by blast
qed

subsection \<open>C6: ambiguous successors\<close>





lemma nextStatement_trace [simp]: "nextStatement (r\<lparr>trace := t\<rparr>) = nextStatement r"
  by (simp add: nextStatement_def fun_eq_iff)

lemma nextStatement_cache: "cache_ext r r' \<Longrightarrow> nextStatement r' l = nextStatement r l"
  by (rule nextStatement_cache_ext)






























text \<open>
  For the witness. In \<open>amb_prog\<close> the node \<open>Skip 1\<close> stands twice, in \<open>wamb_prog\<close> the loop
  \<open>While 1\<close> does: label 1 has two successors. \<open>amb_at\<close> and \<open>wamb_at\<close> are the instances on
  which \<open>check\<close> calls \<open>compatible(1, 0)\<close>: the calls for the label 0 have returned true. In
  \<open>skip_r\<close>, \<open>sendz_r\<close> and \<open>wend_r\<close> the label 1 has no successor.
\<close>

definition amb_at :: refinement where
  "amb_at = amb_r\<lparr>compat := universal amb_r, trace := [CurrentRefinement, Compatible 0 0]\<rparr>"

definition wamb_prog :: stmt where
  "wamb_prog = Statement 0 [While 1 (Sym ''x'') (Skip 2), Print 3, While 1 (Sym ''x'') (Skip 2), Exit 4]"

definition wamb_labels :: "(label \<times> stmt) list" where
  "wamb_labels = [(0, wamb_prog), (1, While 1 (Sym ''x'') (Skip 2)), (2, Skip 2), (3, Print 3), (4, Exit 4)]"

definition choice_proj :: projection where
  "choice_proj = \<lparr> start_state = 0,
     mk_state_to_node = [(0, GuardedChoice [(Sym ''x'', 0), (Not_cond (Sym ''x''), 1)]), (1, End)] \<rparr>"

definition wamb_r :: refinement where
  "wamb_r = projr (init wamb_prog wamb_labels choice_proj dis_syntactic)"

definition wamb_at :: refinement where
  "wamb_at = wamb_r\<lparr>compat := universal wamb_r,
                      trace := [CurrentRefinement, Compatible 0 0, Compatible 0 1]\<rparr>"

definition sendz_r :: refinement where
  "sendz_r = projr (init (Statement 0 [Send 1 ''P'' ''Go''])
                      [(0, Statement 0 [Send 1 ''P'' ''Go'']), (1, Send 1 ''P'' ''Go'')] send_proj dis_syntactic)"

definition wend_r :: refinement where
  "wend_r = projr (init (Statement 0 [While 1 (Sym ''x'') (Skip 2)])
                     [(0, Statement 0 [While 1 (Sym ''x'') (Skip 2)]),
                      (1, While 1 (Sym ''x'') (Skip 2)), (2, Skip 2)] choice_proj dis_syntactic)"

lemmas wamb_defs = wamb_r_def wamb_at_def amb_at_def sendz_r_def wend_r_def wamb_prog_def
  wamb_labels_def choice_proj_def send_proj_def

lemma wamb_init: "init wamb_prog wamb_labels choice_proj dis_syntactic = Inr wamb_r"
  by (simp add: wamb_defs amb_defs)









end
